theory Spec2Isabelle
  imports Complex_Main "HOL-Library.While_Combinator" "HOL-Library.AList" "HOL-Library.Multiset"
    "HOL-Library.Product_Lexorder"
begin

section \<open>Exceptions\<close>

text \<open>
  The engine is Python: a failing library call raises.  Every raise that the modelled
  functions can reach is a constructor here, and a function that can raise returns
  \<open>exn + 'a\<close> with \<open>Inl\<close> for the exception that leaves the function.
\<close>

datatype exn =
    ValueError | IndexError | KeyError | FileNotFoundError
  | ZeroDivisionError | NotImplementedError | TypeError

section \<open>Pixel grids\<close>

text \<open>
  A single-band image: its size and its pixel values.  Only the pixels inside
  \<open>0 \<le> x < width\<close>, \<open>0 \<le> y < height\<close> belong to the image.
\<close>

type_synonym point = "int \<times> int"

record image =
  width :: int
  height :: int
  pix :: "point \<Rightarrow> int"

definition in_image :: "image \<Rightarrow> point \<Rightarrow> bool" where
  "in_image im p \<longleftrightarrow> 0 \<le> fst p \<and> fst p < width im \<and> 0 \<le> snd p \<and> snd p < height im"

text \<open>
  Pixel access as the imaging library does it (\<open>pixel[x, y]\<close>, \<open>getpixel\<close>,
  \<open>putpixel\<close>): a negative index counts from the far edge, as in Python sequences,
  and an index that is still outside afterwards raises \<open>IndexError\<close>.  This is why
  the loop of \<open>floodfill\<close> skips negative neighbours itself.
\<close>

definition pixel_index :: "image \<Rightarrow> point \<Rightarrow> point option" where
  "pixel_index im p =
     (let x = (if fst p < 0 then width im + fst p else fst p);
          y = (if snd p < 0 then height im + snd p else snd p)
      in if x < 0 \<or> width im \<le> x \<or> y < 0 \<or> height im \<le> y then None else Some (x, y))"

definition getpixel :: "image \<Rightarrow> point \<Rightarrow> exn + int" where
  "getpixel im p = (case pixel_index im p of None \<Rightarrow> Inl IndexError | Some q \<Rightarrow> Inr (pix im q))"

definition putpixel :: "image \<Rightarrow> point \<Rightarrow> int \<Rightarrow> exn + image" where
  "putpixel im p v =
     (case pixel_index im p of None \<Rightarrow> Inl IndexError
      | Some q \<Rightarrow> Inr (im\<lparr>pix := (pix im)(q := v)\<rparr>))"

definition new_image :: "int \<Rightarrow> int \<Rightarrow> int \<Rightarrow> image" where
  "new_image w h v = \<lparr>width = w, height = h, pix = (\<lambda>_. v)\<rparr>"

text \<open>\<open>_color_diff\<close> on single-band colours.\<close>

definition color_diff :: "int \<Rightarrow> int \<Rightarrow> int" where
  "color_diff color1 color2 = \<bar>color1 - color2\<bar>"

section \<open>Flood fill\<close>

text \<open>
  The sets \<open>edge\<close>, \<open>new_edge\<close> and \<open>filled_pixels\<close> are iterated over, so they are
  duplicate-free lists (\<open>List.insert\<close>, \<open>List.union\<close>); Python's iteration order over a
  set is unspecified and the model fixes one.  \<open>full_edge\<close> is only tested for
  membership.  The state of the sweep over one edge is the image, \<open>full_edge\<close> and
  \<open>new_edge\<close>.
\<close>

type_synonym sweep_state = "image \<times> point set \<times> point list"

definition neighbours :: "point \<Rightarrow> point list" where
  "neighbours p = (case p of (x, y) \<Rightarrow> [(x + 1, y), (x - 1, y), (x, y + 1), (x, y - 1)])"

definition fillable :: "int \<Rightarrow> int option \<Rightarrow> int \<Rightarrow> int \<Rightarrow> int \<Rightarrow> bool" where
  "fillable val border background thresh p =
     (case border of None \<Rightarrow> color_diff p background \<le> thresh
      | Some b \<Rightarrow> p \<noteq> val \<and> p \<noteq> b)"

text \<open>
  The body of the innermost loop, for one neighbour \<open>(s, t)\<close>.  The write cannot fail
  after the read at the same coordinate succeeded (\<open>putpixel_after_getpixel\<close> below).
\<close>

definition visit :: "int \<Rightarrow> int option \<Rightarrow> int \<Rightarrow> int \<Rightarrow> sweep_state \<Rightarrow> point \<Rightarrow> sweep_state" where
  "visit val border background thresh st n =
     (case st of (im, full_edge, new_edge) \<Rightarrow>
        if n \<in> full_edge \<or> fst n < 0 \<or> snd n < 0 then st
        else (case getpixel im n of
                Inl _ \<Rightarrow> st
              | Inr p \<Rightarrow>
                  if fillable val border background thresh p
                  then (case putpixel im n val of
                          Inl _ \<Rightarrow> st
                        | Inr im' \<Rightarrow> (im', insert n full_edge, List.insert n new_edge))
                  else (im, insert n full_edge, new_edge)))"

definition sweep :: "int \<Rightarrow> int option \<Rightarrow> int \<Rightarrow> int \<Rightarrow> point list \<Rightarrow> sweep_state \<Rightarrow> sweep_state" where
  "sweep val border background thresh edge st =
     fold (\<lambda>p st. fold (\<lambda>n st. visit val border background thresh st n) (neighbours p) st) edge st"

text \<open>
  The \<open>while edge:\<close> loop.  Its state is the image, \<open>edge\<close>, \<open>filled_pixels\<close> and
  \<open>full_edge\<close>.  Nothing in the loop itself bounds the number of rounds, so it is a
  \<open>while_option\<close>: \<open>None\<close> stands for a loop that never ends.
\<close>

type_synonym fill_state = "image \<times> point list \<times> point list \<times> point set"

definition fill_round :: "int \<Rightarrow> int option \<Rightarrow> int \<Rightarrow> int \<Rightarrow> fill_state \<Rightarrow> fill_state" where
  "fill_round val border background thresh s =
     (case s of (im, edge, filled_pixels, full_edge) \<Rightarrow>
        (case sweep val border background thresh edge (im, full_edge, []) of
           (im', _, new_edge) \<Rightarrow> (im', new_edge, List.union edge filled_pixels, set edge)))"

definition fill_loop :: "int \<Rightarrow> int option \<Rightarrow> int \<Rightarrow> int \<Rightarrow> fill_state \<Rightarrow> fill_state option" where
  "fill_loop val border background thresh =
     while_option (\<lambda>(im, edge, filled_pixels, full_edge). edge \<noteq> [])
       (fill_round val border background thresh)"

text \<open>
  \<open>floodfill image xy value border thresh\<close> returns the filled pixels and the image as
  the fill left it (the source mutates the image in place).
\<close>

definition floodfill :: "image \<Rightarrow> point \<Rightarrow> int \<Rightarrow> int option \<Rightarrow> int \<Rightarrow> (point list \<times> image) option" where
  "floodfill im xy val border thresh =
     (case getpixel im xy of
        Inl _ \<Rightarrow> Some ([], im)
      | Inr background \<Rightarrow>
          if color_diff val background \<le> thresh then Some ([], im)
          else (case putpixel im xy val of
                  Inl _ \<Rightarrow> Some ([], im)
                | Inr im1 \<Rightarrow>
                    map_option (\<lambda>(im', edge, filled_pixels, full_edge). (filled_pixels, im'))
                      (fill_loop val border background thresh (im1, [xy], [], {}))))"


section \<open>Regions, the registry and the files of a map\<close>

text \<open>
  Attribute values are JSON values.  A region is its \<open>center\<close>, its \<open>weight\<close> and the
  bag \<open>data\<close> of further named attributes (the \<open>**kwargs\<close> of \<open>Region.__init__\<close>);
  the order of the entries of the bag never matters, so it is a map.  Coordinates of a
  centre are Python floats; the model computes with real numbers and leaves rounding out.
\<close>

datatype json =
    JNull | JBool bool | JInt int | JFloat real | JStr string
  | JArr "json list" | JObj "string \<Rightarrow> json option"

record region =
  center :: "real \<times> real"
  weight :: int
  data :: "string \<rightharpoonup> json"

text \<open>
  \<open>ConquestMap\<close>.  \<open>regions\<close> is a Python dictionary that the engine iterates over
  (\<open>prune_masks\<close>, \<open>sort_regions\<close>), so its insertion order is kept: an association
  list, changed with \<open>AList.update\<close> (a new key goes to the end, an old key keeps its
  place) and \<open>AList.delete\<close>.
\<close>

record conquest_map =
  name :: "string option"
  custom :: "bool option"
  region_max :: "int option"
  regions :: "(int \<times> region) list"

text \<open>
  The files under the map's directory.  A mask file is \<open>masks/<k>.png\<close> or, during a
  sort, \<open>masks/<k>_old.png\<close>; mask files hold one-bit images, for which
  \<open>convert(MASK_MODE)\<close> changes nothing.  \<open>data.json\<close> holds the document written by
  \<open>save_data\<close>, with the regions in the order of the file.  The three label overlays are
  drawn from the labels and centres of the regions, which is what \<open>numbers_png\<close> records.
\<close>

datatype fname = Png int | OldPng int

record data_file =
  f_name :: "string option"
  f_custom :: "bool option"
  f_region_max :: "int option"
  f_regions :: "(string \<times> (string \<rightharpoonup> json)) list option"

record disk =
  blank_png :: "image option"
  masks_dir :: "(fname \<times> image) list option"
  data_json :: "data_file option"
  numbers_png :: "(int \<times> real \<times> real) list option"

section \<open>Decimal keys\<close>

definition digit_char :: "nat \<Rightarrow> char" where
  "digit_char d = ''0123456789'' ! d"



fun str_nat :: "nat \<Rightarrow> string" where
  "str_nat n = (if n < 10 then [digit_char n] else str_nat (n div 10) @ [digit_char (n mod 10)])"

declare str_nat.simps [simp del]

text \<open>\<open>str(k)\<close> for an integer key.\<close>

definition str_int :: "int \<Rightarrow> string" where
  "str_int k = (if k < 0 then CHR ''-'' # str_nat (nat (- k)) else str_nat (nat k))"



section \<open>Persisting the registry\<close>

text \<open>\<open>Region.get_json\<close>: \<open>{"center": ..., "weight": ..., **self.data}\<close>; a later entry wins.\<close>

definition get_json :: "region \<Rightarrow> (string \<rightharpoonup> json)" where
  "get_json r =
     [''center'' \<mapsto> JArr [JFloat (fst (center r)), JFloat (snd (center r))],
      ''weight'' \<mapsto> JInt (weight r)] ++ data r"



text \<open>
  \<open>save_data\<close>: \<open>json.dump(to_save, dp, sort_keys=True, indent=4)\<close>.  The encoder
  sorts the items of the \<open>regions\<close> dictionary by their integer keys and then writes each
  key as a string.
\<close>

definition save_data :: "conquest_map \<Rightarrow> disk \<Rightarrow> disk" where
  "save_data m d =
     d\<lparr>data_json := Some
          \<lparr>f_name = name m, f_custom = custom m, f_region_max = region_max m,
           f_regions = Some (map (\<lambda>(num, r). (str_int num, get_json r))
                               (sort_key fst (regions m)))\<rparr>\<rparr>"



text \<open>
  \<open>create_number_mask\<close>: nothing is drawn when the base image is missing; otherwise one
  label per region, the region's number, at its centre.
\<close>

definition create_number_mask :: "(int \<times> region) list \<Rightarrow> disk \<Rightarrow> disk" where
  "create_number_mask rs d =
     (case blank_png d of None \<Rightarrow> d
      | Some _ \<Rightarrow> d\<lparr>numbers_png := Some (map (\<lambda>(num, r). (num, center r)) rs)\<rparr>)"


section \<open>Sequencing calls that can raise\<close>

definition ebind :: "exn + 'a \<Rightarrow> ('a \<Rightarrow> exn + 'b) \<Rightarrow> exn + 'b" where
  "ebind x f = (case x of Inl e \<Rightarrow> Inl e | Inr v \<Rightarrow> f v)"

text \<open>A \<open>for\<close> loop whose body can raise: the first exception ends the loop.\<close>

fun efold :: "('a \<Rightarrow> 's \<Rightarrow> exn + 's) \<Rightarrow> 'a list \<Rightarrow> 's \<Rightarrow> exn + 's" where
  "efold f [] s = Inr s"
| "efold f (x # xs) s = (case f x s of Inl e \<Rightarrow> Inl e | Inr s' \<Rightarrow> efold f xs s')"

section \<open>Centres and scan order\<close>

text \<open>\<open>get_center\<close>: the mean of the points; dividing by \<open>len(points) = 0\<close> raises.\<close>

definition get_center :: "(real \<times> real) list \<Rightarrow> exn + (real \<times> real)" where
  "get_center points =
     (if points = [] then Inl ZeroDivisionError
      else Inr (sum_list (map fst points) / real (length points),
                sum_list (map snd points) / real (length points)))"

definition real_point :: "point \<Rightarrow> real \<times> real" where
  "real_point p = (real_of_int (fst p), real_of_int (snd p))"

text \<open>
  \<open>chunker\<close>: the slices \<open>seq[pos:pos + size]\<close> for \<open>pos\<close> in
  \<open>range(0, len(seq), size)\<close>; \<open>range\<close> raises \<open>ValueError\<close> for a zero step.
\<close>

definition chunker :: "'a list \<Rightarrow> nat \<Rightarrow> exn + 'a list list" where
  "chunker seq sz =
     (if sz = 0 then Inl ValueError
      else Inr (map (\<lambda>i. take sz (drop (i * sz) seq))
                  [0 ..< (length seq + sz - 1) div sz]))"

text \<open>
  The order in which \<open>Regioner.execute\<close> visits the pixels: the four nested \<open>for\<close>
  loops over the chunks of the rows and of the columns.  The column chunks are built
  inside the loop over the rows, so an image without rows never builds them.
\<close>

definition scan_order :: "int \<Rightarrow> int \<Rightarrow> exn + point list" where
  "scan_order w h =
     ebind (chunker [0 .. h - 1] (nat (h div 10))) (\<lambda>y_chunks.
       efold (\<lambda>y1 ps.
                ebind (chunker [0 .. w - 1] (nat (w div 10))) (\<lambda>x_chunks.
                  Inr (ps @ map (\<lambda>x1. (x1, y1)) (concat x_chunks))))
             (concat y_chunks) [])"

section \<open>Segmentation\<close>

record regioner =
  wall_color :: int
  region_color :: "int option"

text \<open>
  A run that can raise and whose loops might not end: \<open>None\<close> is a run that never
  returns, \<open>Some (Inl e)\<close> a run that raises \<open>e\<close>.
\<close>

type_synonym 'a run = "(exn + 'a) option"

fun rfold :: "('a \<Rightarrow> 's \<Rightarrow> 's run) \<Rightarrow> 'a list \<Rightarrow> 's \<Rightarrow> 's run" where
  "rfold f [] s = Some (Inr s)"
| "rfold f (x # xs) s =
     (case f x s of None \<Rightarrow> None | Some (Inl e) \<Rightarrow> Some (Inl e) | Some (Inr s') \<Rightarrow> rfold f xs s')"

text \<open>The mask of a region: 255 everywhere, 0 at the filled pixels.\<close>

definition make_mask :: "image \<Rightarrow> point list \<Rightarrow> exn + image" where
  "make_mask base_img filled =
     efold (\<lambda>q msk. putpixel msk q 0) filled
       (new_image (width base_img) (height base_img) 255)"

text \<open>
  The state of the scan: the base image (the fills write into it), \<open>already_processed\<close>,
  \<open>mask_count\<close>, \<open>regions\<close> and the mask files.
\<close>

type_synonym scan_state = "image \<times> point set \<times> int \<times> (int \<times> region) list \<times> (fname \<times> image) list"

definition scan_pixel :: "regioner \<Rightarrow> point \<Rightarrow> scan_state \<Rightarrow> scan_state run" where
  "scan_pixel rg p st =
     (case st of (base_img, already_processed, mask_count, regs, masks) \<Rightarrow>
        if p \<in> already_processed then Some (Inr st)
        else (case getpixel base_img p of
                Inl e \<Rightarrow> Some (Inl e)
              | Inr c \<Rightarrow>
                  if (region_color rg = None \<and> c \<noteq> wall_color rg) \<or> Some c = region_color rg
                  then (case floodfill base_img p (wall_color rg) (Some (wall_color rg)) 0 of
                          None \<Rightarrow> None
                        | Some (filled, img') \<Rightarrow>
                            if filled \<noteq> [] then
                              Some (ebind (make_mask img' filled) (\<lambda>msk.
                                    ebind (get_center (map real_point filled)) (\<lambda>c.
                                      Inr (img', already_processed \<union> set filled, mask_count + 1,
                                           AList.update (mask_count + 1)
                                             \<lparr>center = c, weight = int (length filled), data = Map.empty\<rparr> regs,
                                           AList.update (Png (mask_count + 1)) msk masks))))
                            else Some (Inr (img', already_processed, mask_count, regs, masks)))
                  else Some (Inr st)))"

text \<open>
  \<open>Regioner.execute\<close>.  The result is \<open>None\<close> for the \<open>False\<close> returned when the base
  image is missing, and the regions otherwise.
\<close>

definition execute :: "regioner \<Rightarrow> disk \<Rightarrow> ((int \<times> region) list option \<times> disk) run" where
  "execute rg d =
     (case blank_png d of
        None \<Rightarrow> Some (Inr (None, d))
      | Some base_img \<Rightarrow>
          (case scan_order (width base_img) (height base_img) of
             Inl e \<Rightarrow> Some (Inl e)
           | Inr ps \<Rightarrow>
               (case rfold (scan_pixel rg) ps
                       (base_img, {}, 0, [], case masks_dir d of None \<Rightarrow> [] | Some ms \<Rightarrow> ms) of
                  None \<Rightarrow> None
                | Some (Inl e) \<Rightarrow> Some (Inl e)
                | Some (Inr (img, already_processed, mask_count, regs, masks)) \<Rightarrow>
                    Some (Inr (Some regs, create_number_mask regs (d\<lparr>masks_dir := Some masks\<rparr>))))))"

section \<open>Registry operations\<close>

text \<open>\<open>max(self.regions.keys())\<close>: \<open>ValueError\<close> on an empty registry.\<close>

definition max_key :: "(int \<times> region) list \<Rightarrow> exn + int" where
  "max_key rs = (case map fst rs of [] \<Rightarrow> Inl ValueError | k # ks \<Rightarrow> Inr (fold max ks k))"

text \<open>\<open>self.region_max in keys\<close>; \<open>None\<close> is in no list of integers.\<close>

definition region_max_in :: "conquest_map \<Rightarrow> int list \<Rightarrow> bool" where
  "region_max_in m ks = (case region_max m of None \<Rightarrow> False | Some k \<Rightarrow> k \<in> set ks)"

text \<open>
  \<open>if self.region_max in keys: self.region_max = max(self.regions.keys())\<close>, as
  \<open>combine_masks\<close> and \<open>delete_masks\<close> both have it.
\<close>

definition adjust_region_max :: "int list \<Rightarrow> conquest_map \<Rightarrow> exn + conquest_map" where
  "adjust_region_max keys m =
     (if region_max_in m keys
      then ebind (max_key (regions m)) (\<lambda>k. Inr (m\<lparr>region_max := Some k\<rparr>))
      else Inr m)"

text \<open>
  The end of every registry operation but the sort:
  \<open>await self.create_number_mask(); await self.save_data()\<close>.
\<close>

definition redraw_and_save :: "conquest_map \<Rightarrow> disk \<Rightarrow> disk" where
  "redraw_and_save m d = save_data m (create_number_mask (regions m) d)"

text \<open>
  \<open>generate_masks\<close>, with the regioner it builds (wall colour black, no region colour).
  \<open>if not regions\<close> holds for \<open>False\<close> and for the empty dictionary.
\<close>

definition generate_masks :: "conquest_map \<Rightarrow> disk \<Rightarrow> ((int \<times> region) list option \<times> conquest_map \<times> disk) run" where
  "generate_masks m d =
     (case execute \<lparr>wall_color = 0, region_color = None\<rparr> d of
        None \<Rightarrow> None
      | Some (Inl e) \<Rightarrow> Some (Inl e)
      | Some (Inr (None, d')) \<Rightarrow> Some (Inr (None, m, d'))
      | Some (Inr (Some regs, d')) \<Rightarrow>
          if regs = [] then Some (Inr (Some regs, m, d'))
          else (let m' = m\<lparr>regions := regs, region_max := Some (int (length regs) + 1)\<rparr>
                in Some (Inr (Some regs, m', save_data m' d'))))"

text \<open>
  \<open>delete_masks\<close>.  The loop pops the keys one by one inside the \<open>try\<close>; \<open>pop_keys\<close>
  returns the registry as the loop left it and whether it met a missing key.
\<close>

fun pop_keys :: "int list \<Rightarrow> (int \<times> region) list \<Rightarrow> (int \<times> region) list \<times> bool" where
  "pop_keys [] rs = (rs, True)"
| "pop_keys (key # keys) rs =
     (if key \<in> fst ` set rs then pop_keys keys (AList.delete key rs) else (rs, False))"

definition delete_masks :: "int list \<Rightarrow> conquest_map \<Rightarrow> disk \<Rightarrow> exn + (int list option \<times> conquest_map \<times> disk)" where
  "delete_masks mask_list m d =
     (case pop_keys mask_list (regions m) of
        (rs, False) \<Rightarrow> Inr (None, m\<lparr>regions := rs\<rparr>, d)
      | (rs, True) \<Rightarrow>
          ebind (adjust_region_max mask_list (m\<lparr>regions := rs\<rparr>)) (\<lambda>m'.
            Inr (Some mask_list, m', redraw_and_save m' d)))"

section \<open>Mask files\<close>

text \<open>
  The masks directory is a list of named files (\<open>iterdir\<close> lists it in the order of
  the list).  \<open>rename\<close> is \<open>Path.rename\<close> on POSIX: it replaces a file that already
  has the new name.
\<close>

definition open_mask :: "disk \<Rightarrow> fname \<Rightarrow> exn + image" where
  "open_mask d f =
     (case masks_dir d of
        None \<Rightarrow> Inl FileNotFoundError
      | Some ms \<Rightarrow> (case map_of ms f of None \<Rightarrow> Inl FileNotFoundError | Some im \<Rightarrow> Inr im))"

definition save_mask :: "fname \<Rightarrow> image \<Rightarrow> disk \<Rightarrow> exn + disk" where
  "save_mask f im d =
     (case masks_dir d of
        None \<Rightarrow> Inl FileNotFoundError
      | Some ms \<Rightarrow> Inr (d\<lparr>masks_dir := Some (AList.update f im ms)\<rparr>))"

definition rename :: "fname \<Rightarrow> fname \<Rightarrow> disk \<Rightarrow> exn + disk" where
  "rename old_mask new_mask d =
     (case masks_dir d of
        None \<Rightarrow> Inl FileNotFoundError
      | Some ms \<Rightarrow>
          (case map_of ms old_mask of
             None \<Rightarrow> Inl FileNotFoundError
           | Some im \<Rightarrow>
               Inr (d\<lparr>masks_dir := Some (AList.update new_mask im (AList.delete old_mask ms))\<rparr>)))"

text \<open>\<open>int(mask.stem)\<close>: the stem of \<open>k_old.png\<close> is not a number.\<close>

definition stem_int :: "fname \<Rightarrow> exn + int" where
  "stem_int f = (case f of Png k \<Rightarrow> Inr k | OldPng k \<Rightarrow> Inl ValueError)"

definition stem :: "fname \<Rightarrow> string" where
  "stem f = (case f of Png k \<Rightarrow> str_int k | OldPng k \<Rightarrow> str_int k @ ''_old'')"

text \<open>
  \<open>get_points_from_mask\<close>.  \<open>numpy.where\<close> finds the pixels that are 0 row by row
  (\<open>mask_points\<close>, coordinates \<open>(x, y)\<close>); the function returns them as a \<open>set\<close>, so
  the order in which they were found is gone.
\<close>

definition mask_points :: "image \<Rightarrow> point list" where
  "mask_points msk =
     concat (map (\<lambda>y. map (\<lambda>x. (x, y)) (filter (\<lambda>x. pix msk (x, y) = 0) [0 .. width msk - 1]))
                 [0 .. height msk - 1])"

definition get_points_from_mask :: "disk \<Rightarrow> int \<Rightarrow> exn + point set" where
  "get_points_from_mask d region =
     ebind (open_mask d (Png region)) (\<lambda>msk. Inr (set (mask_points msk)))"

text \<open>
  Python does not fix the order in which a \<open>set\<close> is iterated.  Where the code goes
  through a set of points (\<open>list(points)\<close>, \<open>for p in points\<close>) the model takes the
  order as a parameter \<open>listing\<close>; \<open>lists_sets\<close> says what is known of it: the
  elements of the set, each once.
\<close>

definition lists_sets :: "(point set \<Rightarrow> point list) \<Rightarrow> bool" where
  "lists_sets listing = (\<forall>S. finite S \<longrightarrow> set (listing S) = S \<and> distinct (listing S))"

section \<open>Merging\<close>

text \<open>
  \<open>ImageChops.logical_and\<close> on one-bit images: a pixel of the result is set (255) where
  both operands are non-zero and 0 elsewhere; the result has the smaller of the two sizes.
\<close>

definition logical_and :: "image \<Rightarrow> image \<Rightarrow> image" where
  "logical_and image1 image2 =
     \<lparr>width = min (width image1) (width image2), height = min (height image1) (height image2),
      pix = (\<lambda>q. if pix image1 q \<noteq> 0 \<and> pix image2 q \<noteq> 0 then 255 else 0)\<rparr>"

text \<open>
  The loop of \<open>_img_combine_masks\<close> over \<open>mask_list\<close>; its state is \<open>lowest_num\<close>,
  \<open>eliminated_masks\<close> and \<open>mask\<close>.
\<close>

definition combine_step :: "disk \<Rightarrow> int \<Rightarrow> (int option \<times> int list \<times> image) \<Rightarrow> exn + (int option \<times> int list \<times> image)" where
  "combine_step d mask_num st =
     (case st of (lowest_num, eliminated_masks, msk) \<Rightarrow>
        (case (case lowest_num of
                 None \<Rightarrow> (Some mask_num, eliminated_masks)
               | Some l \<Rightarrow> if mask_num < l then (Some mask_num, eliminated_masks @ [l])
                          else (Some l, eliminated_masks @ [mask_num])) of
           (lowest_num', eliminated_masks') \<Rightarrow>
             ebind (open_mask d (Png mask_num)) (\<lambda>mask2.
               Inr (lowest_num', eliminated_masks', logical_and msk mask2))))"

text \<open>\<open>_img_combine_masks\<close>; \<open>None\<close> is the result \<open>(False, None, None)\<close>.\<close>

definition img_combine_masks :: "int list \<Rightarrow> disk \<Rightarrow> exn + (int \<times> int list \<times> image) option" where
  "img_combine_masks mask_list d =
     (if length mask_list < 2 then Inr None
      else (case blank_png d of
              None \<Rightarrow> Inr None
            | Some base_img \<Rightarrow>
                (case masks_dir d of
                   None \<Rightarrow> Inr None
                 | Some _ \<Rightarrow>
                     ebind (efold (combine_step d) mask_list
                              (None, [], new_image (width base_img) (height base_img) 1))
                       (\<lambda>(lowest_num, eliminated_masks, msk).
                          (case lowest_num of
                             None \<Rightarrow> Inr None
                           | Some l \<Rightarrow> Inr (Some (l, eliminated_masks, msk)))))))"

text \<open>\<open>[self.regions[n] for n in eliminated]\<close>, \<open>None\<close> for the \<open>KeyError\<close>.\<close>

definition lookup_all :: "(int \<times> region) list \<Rightarrow> int list \<Rightarrow> region list option" where
  "lookup_all rs ks =
     (if \<forall>k \<in> set ks. map_of rs k \<noteq> None then Some (map (\<lambda>k. the (map_of rs k)) ks) else None)"

definition weighted_points :: "region list \<Rightarrow> region \<Rightarrow> (real \<times> real) list" where
  "weighted_points elim_regions lowest_region =
     concat (map (\<lambda>r. replicate (nat (weight r)) (center r)) elim_regions)
       @ replicate (nat (weight lowest_region)) (center lowest_region)"

text \<open>\<open>for key in eliminated: self.regions.pop(key)\<close>, outside any \<open>try\<close>.\<close>

definition pop_key :: "int \<Rightarrow> (int \<times> region) list \<Rightarrow> exn + (int \<times> region) list" where
  "pop_key key rs = (if key \<in> fst ` set rs then Inr (AList.delete key rs) else Inl KeyError)"

text \<open>
  \<open>combine_masks\<close>.  \<open>merge_regions\<close> is what follows the \<open>try\<close> block: the
  merged mask is saved under the lowest key, the region of the lowest key gets the new
  centre and weight (in place), and the eliminated keys are popped.
\<close>

definition merge_regions :: "int \<Rightarrow> int list \<Rightarrow> image \<Rightarrow> region list \<Rightarrow> region \<Rightarrow> conquest_map \<Rightarrow> disk \<Rightarrow> exn + (int option \<times> conquest_map \<times> disk)" where
  "merge_regions lowest eliminated msk elim_regions lowest_region m d =
     ebind (save_mask (Png lowest) msk d) (\<lambda>d1.
     ebind (get_center (weighted_points elim_regions lowest_region)) (\<lambda>c.
     ebind (efold pop_key eliminated
              (AList.update lowest
                 (lowest_region\<lparr>center := c,
                    weight := weight lowest_region + sum_list (map weight elim_regions)\<rparr>)
                 (regions m))) (\<lambda>rs.
     ebind (adjust_region_max eliminated (m\<lparr>regions := rs\<rparr>)) (\<lambda>m'.
       Inr (Some lowest, m', redraw_and_save m' d1)))))"

text \<open>
  The result is \<open>None\<close> for \<open>False\<close>; \<open>if not lowest\<close> also holds for the key 0,
  which is then returned with nothing done.
\<close>

definition combine_masks :: "int list \<Rightarrow> conquest_map \<Rightarrow> disk \<Rightarrow> exn + (int option \<times> conquest_map \<times> disk)" where
  "combine_masks mask_list m d =
     ebind (img_combine_masks mask_list d) (\<lambda>res.
       case res of
         None \<Rightarrow> Inr (None, m, d)
       | Some (lowest, eliminated, msk) \<Rightarrow>
           if lowest = 0 then Inr (Some lowest, m, d)
           else (case (lookup_all (regions m) eliminated, map_of (regions m) lowest) of
                   (Some elim_regions, Some lowest_region) \<Rightarrow>
                     merge_regions lowest eliminated msk elim_regions lowest_region m d
                 | _ \<Rightarrow> Inr (None, m, d)))"

section \<open>Recalculating, sorting and pruning\<close>

text \<open>
  \<open>recalculate_region\<close>; \<open>self.regions[num]\<close> raises \<open>KeyError\<close> for a missing key.
  \<open>get_center\<close> goes through the set of points, \<open>len(points)\<close> counts it.
\<close>

definition recalculate_one :: "(point set \<Rightarrow> point list) \<Rightarrow> disk \<Rightarrow> int \<Rightarrow> (int \<times> region) list \<Rightarrow> exn + (int \<times> region) list" where
  "recalculate_one listing d num rs =
     (case map_of rs num of
        None \<Rightarrow> Inl KeyError
      | Some r \<Rightarrow>
          ebind (get_points_from_mask d num) (\<lambda>points.
          ebind (get_center (map real_point (listing points))) (\<lambda>c.
            Inr (AList.update num (r\<lparr>center := c, weight := int (card points)\<rparr>) rs))))"

definition recalculate_region :: "(point set \<Rightarrow> point list) \<Rightarrow> int list option \<Rightarrow> conquest_map \<Rightarrow> disk \<Rightarrow> exn + (conquest_map \<times> disk)" where
  "recalculate_region listing keys m d =
     ebind (efold (recalculate_one listing d) (case keys of None \<Rightarrow> map fst (regions m) | Some ks \<Rightarrow> ks)
              (regions m))
       (\<lambda>rs. Inr (m\<lparr>regions := rs\<rparr>, save_data (m\<lparr>regions := rs\<rparr>) d))"

text \<open>
  \<open>sort_regions\<close>.  \<open>topmost\<close> is \<open>points.sort(key=lambda x: x[1]); points[0]\<close> on the
  list \<open>list(points)\<close> of the set of points; both sorts are stable, as \<open>sort_key\<close> is.
\<close>

definition topmost :: "point list \<Rightarrow> exn + point" where
  "topmost points = (case sort_key snd points of [] \<Rightarrow> Inl IndexError | p # _ \<Rightarrow> Inr p)"

definition sort_entry :: "(point set \<Rightarrow> point list) \<Rightarrow> disk \<Rightarrow> int \<Rightarrow> (point \<times> int) list \<Rightarrow> exn + (point \<times> int) list" where
  "sort_entry listing d num acc =
     ebind (get_points_from_mask d num) (\<lambda>points.
     ebind (topmost (listing points)) (\<lambda>p. Inr (acc @ [(p, num)])))"

definition rename_new :: "(int \<times> region) list \<Rightarrow> (int \<times> int) \<Rightarrow> ((int \<times> region) list \<times> disk) \<Rightarrow> exn + ((int \<times> region) list \<times> disk)" where
  "rename_new old_regions nums st =
     (case (nums, st) of ((new_num, old_num), (new_regions, d)) \<Rightarrow>
        ebind (rename (OldPng old_num) (Png new_num) d) (\<lambda>d'.
          (case map_of old_regions old_num of
             None \<Rightarrow> Inl KeyError
           | Some r \<Rightarrow> Inr (AList.update new_num r new_regions, d'))))"

text \<open>\<open>enumerate(xs, start=1)\<close>.\<close>

definition enumerate1 :: "'a list \<Rightarrow> (int \<times> 'a) list" where
  "enumerate1 xs = zip (map int [1 ..< Suc (length xs)]) xs"

definition sort_regions :: "(point set \<Rightarrow> point list) \<Rightarrow> bool \<Rightarrow> conquest_map \<Rightarrow> disk \<Rightarrow> exn + (conquest_map \<times> disk)" where
  "sort_regions listing fast_sort m d =
     (if \<not> fast_sort then Inl NotImplementedError
      else
        ebind (efold (sort_entry listing d) (map fst (regions m)) []) (\<lambda>unsorted.
        ebind (efold (\<lambda>num. rename (Png num) (OldPng num)) (map fst (regions m)) d) (\<lambda>d1.
        ebind (efold (rename_new (regions m))
                 (enumerate1 (map snd (sort_key (\<lambda>x. snd (fst x)) unsorted))) ([], d1))
          (\<lambda>(new_regions, d2).
             Inr (m\<lparr>regions := new_regions\<rparr>, save_data (m\<lparr>regions := new_regions\<rparr>) d2)))))"

text \<open>
  \<open>prune_masks\<close>.  Step 1 goes through the directory as it was listed at the start;
  step 2 goes through the registry in the order of the dictionary.
\<close>

definition prune_file :: "(int \<times> region) list \<Rightarrow> fname \<Rightarrow> (string list \<times> (fname \<times> image) list) \<Rightarrow> exn + (string list \<times> (fname \<times> image) list)" where
  "prune_file rs msk st =
     (case st of (pruned, ms) \<Rightarrow>
        ebind (stem_int msk) (\<lambda>k.
          if k \<notin> fst ` set rs then Inr (pruned @ [stem msk], AList.delete msk ms)
          else Inr (pruned, ms)))"

definition renumber :: "(int \<times> int \<times> region) \<Rightarrow> ((int \<times> region) list \<times> disk) \<Rightarrow> exn + ((int \<times> region) list \<times> disk)" where
  "renumber entry st =
     (case (entry, st) of ((newnum, num, r), (new_regions, d)) \<Rightarrow>
        if newnum = num then Inr (AList.update newnum r new_regions, d)
        else ebind (rename (Png num) (Png newnum) d) (\<lambda>d'.
               Inr (AList.update newnum r new_regions, d')))"

definition prune_masks :: "conquest_map \<Rightarrow> disk \<Rightarrow> exn + (string list \<times> conquest_map \<times> disk)" where
  "prune_masks m d =
     (case masks_dir d of
        None \<Rightarrow> Inl FileNotFoundError
      | Some ms \<Rightarrow>
          ebind (efold (prune_file (regions m)) (map fst ms) ([], ms)) (\<lambda>(pruned, ms1).
          ebind (efold renumber (enumerate1 (regions m)) ([], d\<lparr>masks_dir := Some ms1\<rparr>))
            (\<lambda>(new_regions, d2).
               ebind (max_key new_regions) (\<lambda>k.
                 Inr (pruned, m\<lparr>regions := new_regions, region_max := Some k\<rparr>,
                      save_data (m\<lparr>regions := new_regions, region_max := Some k\<rparr>) d2)))))"

section \<open>Reading the registry\<close>

text \<open>\<open>self.regions[k]\<close> for a key that is in the registry.\<close>

definition region_of :: "conquest_map \<Rightarrow> int \<Rightarrow> region" where
  "region_of m k = the (map_of (regions m) k)"

text \<open>
  The row of the topmost pixel of the mask of region \<open>k\<close>: the least \<open>y\<close> among the
  points of the mask.
\<close>

definition top_y :: "disk \<Rightarrow> int \<Rightarrow> int" where
  "top_y d k =
     (case open_mask d (Png k) of
        Inr msk \<Rightarrow> Min (snd ` set (mask_points msk))
      | Inl _ \<Rightarrow> 0)"

section \<open>Invariants of the flood fill and of the scan\<close>

text \<open>
  \<open>fill_inv im0 W im S\<close>: the image \<open>im\<close> has the size of \<open>im0\<close> and differs from it
  only where it holds the fill value \<open>W\<close>, and every point of \<open>S\<close> is a pixel of the
  image that did not hold \<open>W\<close> in \<open>im0\<close> and holds it now.  \<open>unfilled im W\<close> are
  the pixels that do not hold \<open>W\<close>; their number bounds the rounds of the fill.
\<close>

definition fill_inv :: "image \<Rightarrow> int \<Rightarrow> image \<Rightarrow> point set \<Rightarrow> bool" where
  "fill_inv im0 W im S \<longleftrightarrow>
     width im = width im0 \<and> height im = height im0
     \<and> (\<forall>q. pix im q = pix im0 q \<or> pix im q = W)
     \<and> (\<forall>q \<in> S. in_image im0 q \<and> pix im0 q \<noteq> W \<and> pix im q = W)"

definition unfilled :: "image \<Rightarrow> int \<Rightarrow> point set" where
  "unfilled im W = {q. in_image im q \<and> pix im q \<noteq> W}"

text \<open>
  The state of a sweep, for a fill with value \<open>W\<close> that only fills pixels other than
  \<open>W\<close>: the invariant holds for the points \<open>S\<close> filled before the sweep and for the new
  edge, and the unfilled pixels have become fewer as soon as the new edge is not empty.
\<close>

definition sweep_ok :: "image \<Rightarrow> int \<Rightarrow> point set \<Rightarrow> nat \<Rightarrow> sweep_state \<Rightarrow> bool" where
  "sweep_ok im0 W S N st =
     (case st of (im, full_edge, new_edge) \<Rightarrow>
        fill_inv im0 W im (S \<union> set new_edge)
        \<and> card (unfilled im W) \<le> N \<and> (new_edge \<noteq> [] \<longrightarrow> card (unfilled im W) < N))"

text \<open>
  The invariant of the \<open>while\<close> loop: \<open>fill_inv\<close> for the edge and the filled
  pixels.  \<open>fill_measure\<close> decreases with every round.
\<close>

definition loop_inv :: "image \<Rightarrow> int \<Rightarrow> fill_state \<Rightarrow> bool" where
  "loop_inv im0 W s =
     (case s of (im, edge, filled_pixels, full_edge) \<Rightarrow>
        fill_inv im0 W im (set edge \<union> set filled_pixels))"

definition fill_measure :: "int \<Rightarrow> fill_state \<Rightarrow> nat" where
  "fill_measure W s =
     (case s of (im, edge, filled_pixels, full_edge) \<Rightarrow>
        card (unfilled im W) + (if edge = [] then 0 else 1))"

text \<open>
  \<open>scan_inv w h W st\<close>: the base image has kept its size, the regions found so far have
  the keys 1 to \<open>mask_count\<close>, each has its mask file, the pixels of every such mask hold
  the wall colour in the base image, and no two of these masks share a pixel.
\<close>

definition scan_inv :: "int \<Rightarrow> int \<Rightarrow> int \<Rightarrow> scan_state \<Rightarrow> bool" where
  "scan_inv w h W st =
     (case st of (base_img, already_processed, mask_count, regs, masks) \<Rightarrow>
        width base_img = w \<and> height base_img = h \<and> 0 \<le> mask_count
        \<and> fst ` set regs = {1 .. mask_count}
        \<and> (\<forall>k \<in> {1 .. mask_count}. \<exists>mk. map_of masks (Png k) = Some mk
               \<and> (\<forall>q. pix mk q = 0 \<longrightarrow> pix base_img q = W))
        \<and> (\<forall>j \<in> {1 .. mask_count}. \<forall>k \<in> {1 .. mask_count}. \<forall>mj mk q.
               j \<noteq> k \<and> map_of masks (Png j) = Some mj \<and> map_of masks (Png k) = Some mk
               \<longrightarrow> \<not> (pix mj q = 0 \<and> pix mk q = 0)))"

section \<open>Example data\<close>

definition region_a :: region where
  "region_a = \<lparr>center = (1, 1), weight = 4, data = Map.empty\<rparr>"

definition region_b :: region where
  "region_b = \<lparr>center = (5, 5), weight = 2, data = Map.empty\<rparr>"

definition no_files :: disk where
  "no_files = \<lparr>blank_png = None, masks_dir = None, data_json = None, numbers_png = None\<rparr>"

definition two_regions :: conquest_map where
  "two_regions = \<lparr>name = None, custom = None, region_max = Some 2,
                   regions = [(1, region_a), (2, region_b)]\<rparr>"

text \<open>A 10 by 10 base image, black but for the white pixel at (0, 0), and no masks yet.\<close>

definition one_pixel_disk :: disk where
  "one_pixel_disk =
     \<lparr>blank_png = Some \<lparr>width = 10, height = 10, pix = (\<lambda>p. if p = (0, 0) then 255 else 0)\<rparr>,
      masks_dir = None, data_json = None, numbers_png = None\<rparr>"

definition new_map :: conquest_map where
  "new_map = \<lparr>name = None, custom = None, region_max = None, regions = []\<rparr>"

text \<open>A base image of 5 by 5 pixels.\<close>

definition tiny_disk :: disk where
  "tiny_disk = \<lparr>blank_png = Some (new_image 5 5 255), masks_dir = None,
                 data_json = None, numbers_png = None\<rparr>"

text \<open>
  Two masks on a strip of two pixels: \<open>mask_left\<close> holds the pixel (0, 0) only and
  \<open>mask_right\<close> the pixel (1, 0) only.
\<close>

definition mask_left :: image where
  "mask_left = \<lparr>width = 2, height = 1, pix = (\<lambda>p. if p = (0, 0) then 0 else 255)\<rparr>"

definition mask_right :: image where
  "mask_right = \<lparr>width = 2, height = 1, pix = (\<lambda>p. if p = (1, 0) then 0 else 255)\<rparr>"

definition strip_disk :: disk where
  "strip_disk = \<lparr>blank_png = Some (new_image 2 1 255),
                  masks_dir = Some [(Png 1, mask_left), (Png 2, mask_right)],
                  data_json = None, numbers_png = None\<rparr>"

definition missing_mask_disk :: disk where
  "missing_mask_disk = \<lparr>blank_png = Some (new_image 2 1 255),
                         masks_dir = Some [(Png 1, mask_left)],
                         data_json = None, numbers_png = None\<rparr>"

definition merged_strip :: image where
  "merged_strip = logical_and (logical_and (new_image 2 1 1) mask_left) mask_right"

text \<open>A registry with the keys 1 and 5, and its masks on a column of two pixels.\<close>

definition sparse_regions :: conquest_map where
  "sparse_regions = \<lparr>name = None, custom = None, region_max = Some 5,
                      regions = [(1, region_a), (5, region_b)]\<rparr>"

definition mask_low :: image where
  "mask_low = \<lparr>width = 1, height = 2, pix = (\<lambda>p. if p = (0, 1) then 0 else 255)\<rparr>"

definition mask_high :: image where
  "mask_high = \<lparr>width = 1, height = 2, pix = (\<lambda>p. if p = (0, 0) then 0 else 255)\<rparr>"

definition sparse_disk :: disk where
  "sparse_disk = \<lparr>blank_png = Some (new_image 1 2 255),
                   masks_dir = Some [(Png 1, mask_low), (Png 5, mask_high)],
                   data_json = None, numbers_png = None\<rparr>"

text \<open>
  The registry of the merge example: the regions 2, 3 and 5, with their masks on a strip
  of two pixels.
\<close>

definition region_c :: region where
  "region_c = \<lparr>center = (9, 3), weight = 3, data = [''name'' \<mapsto> JStr ''north'']\<rparr>"

definition three_regions :: conquest_map where
  "three_regions = \<lparr>name = Some ''strip'', custom = Some True, region_max = Some 5,
                     regions = [(2, region_a), (3, region_b), (5, region_c)]\<rparr>"

definition three_disk :: disk where
  "three_disk = \<lparr>blank_png = Some (new_image 2 1 255),
                  masks_dir = Some [(Png 2, mask_left), (Png 3, mask_right), (Png 5, mask_right)],
                  data_json = None, numbers_png = None\<rparr>"

text \<open>
  Three regions on an image 2 pixels wide and 61 pixels high.  The mask of a region holds
  two pixels: its topmost pixel \<open>(1, upper)\<close> and a lower pixel \<open>(0, lower)\<close> in the other
  column.  The topmost rows are 50, 10 and 30, the lower rows 52, 60 and 31.
\<close>

definition column_mask :: "int \<Rightarrow> int \<Rightarrow> image" where
  "column_mask upper lower = \<lparr>width = 2, height = 61,
                               pix = (\<lambda>p. if p = (1, upper) \<or> p = (0, lower) then 0 else 255)\<rparr>"

text \<open>
  An order of iteration: by column, and by row within a column.  It puts the lower pixel
  of a \<open>column_mask\<close> first.
\<close>

definition by_column :: "point set \<Rightarrow> point list" where
  "by_column S = sorted_list_of_set S"

definition column_regions :: conquest_map where
  "column_regions = \<lparr>name = None, custom = None, region_max = Some 3,
                      regions = [(1, region_a), (2, region_b), (3, region_c)]\<rparr>"

definition column_disk :: disk where
  "column_disk = \<lparr>blank_png = Some (new_image 2 61 255),
                   masks_dir = Some [(Png 1, column_mask 50 52), (Png 2, column_mask 10 60),
                                     (Png 3, column_mask 30 31)],
                   data_json = None, numbers_png = None\<rparr>"

text \<open>
  A 10 by 10 base image, black but for the white pixels at (0, 0) and (5, 5): two
  regions of one pixel each.
\<close>

definition two_pixel_disk :: disk where
  "two_pixel_disk =
     \<lparr>blank_png = Some \<lparr>width = 10, height = 10,
                         pix = (\<lambda>p. if p = (0, 0) \<or> p = (5, 5) then 255 else 0)\<rparr>,
      masks_dir = None, data_json = None, numbers_png = None\<rparr>"

text \<open>
  A registry whose dictionary lists the key 2 before the key 1, as \<open>load_data\<close> builds
  it from a file that lists the regions in this order.
\<close>

definition swapped_regions :: conquest_map where
  "swapped_regions = \<lparr>name = None, custom = None, region_max = Some 2,
                       regions = [(2, region_b), (1, region_a)]\<rparr>"

section \<open>Basic facts\<close>

lemma ebind_eq_Inr: "ebind x f = Inr y \<longleftrightarrow> (\<exists>v. x = Inr v \<and> f v = Inr y)"
  by (cases x) (simp_all add: ebind_def)

lemma ebind_Inr [simp]: "ebind (Inr v) f = f v"
  by (simp add: ebind_def)

lemma ebind_Inl [simp]: "ebind (Inl e) f = Inl e"
  by (simp add: ebind_def)

lemma combine_step_Inr:
  "combine_step d k (lo, el, acc) = Inr (lo', el', acc') \<Longrightarrow>
     \<exists>mk. open_mask d (Png k) = Inr mk \<and> acc' = logical_and acc mk"
  by (auto simp: combine_step_def ebind_eq_Inr split: option.splits if_splits)

lemma combine_fold_pix:
  "efold (combine_step d) ks (lo, el, acc) = Inr (lo', el', acc') \<Longrightarrow>
     (pix acc' q = 0 \<longleftrightarrow>
        pix acc q = 0 \<or> (\<exists>k \<in> set ks. \<exists>mk. open_mask d (Png k) = Inr mk \<and> pix mk q = 0))"
proof (induction ks arbitrary: lo el acc)
  case Nil
  then show ?case by simp
next
  case (Cons k ks)
  from Cons.prems obtain lo1 el1 acc1 where
    step: "combine_step d k (lo, el, acc) = Inr (lo1, el1, acc1)" and
    rest: "efold (combine_step d) ks (lo1, el1, acc1) = Inr (lo', el', acc')"
    by (auto split: sum.splits)
  from combine_step_Inr [OF step] obtain mk where
    mk: "open_mask d (Png k) = Inr mk" and acc1: "acc1 = logical_and acc mk"
    by blast
  have "pix acc1 q = 0 \<longleftrightarrow> pix acc q = 0 \<or> pix mk q = 0"
    by (simp add: acc1 logical_and_def)
  with Cons.IH [OF rest] mk show ?case by auto
qed

lemma masks_dir_save_data [simp]: "masks_dir (save_data m d) = masks_dir d"
  by (simp add: save_data_def)

lemma masks_dir_create_number_mask [simp]: "masks_dir (create_number_mask rs d) = masks_dir d"
  by (simp add: create_number_mask_def split: option.splits)

lemma open_mask_save_data [simp]: "open_mask (save_data m d) f = open_mask d f"
  by (simp add: open_mask_def)

lemma open_mask_create_number_mask [simp]: "open_mask (create_number_mask rs d) f = open_mask d f"
  by (simp add: open_mask_def)

lemma open_mask_save_mask:
  "save_mask f im d = Inr d' \<Longrightarrow> open_mask d' g = (if g = f then Inr im else open_mask d g)"
  by (auto simp: save_mask_def open_mask_def update_conv' split: option.splits if_splits)

lemma open_mask_redraw_and_save [simp]: "open_mask (redraw_and_save m d) f = open_mask d f"
  by (simp add: redraw_and_save_def)

lemma adjust_region_max_Inr:
  "adjust_region_max ks m = Inr m' \<Longrightarrow>
     regions m' = regions m \<and> name m' = name m \<and> custom m' = custom m"
  by (auto simp: adjust_region_max_def ebind_eq_Inr split: if_splits)

lemma merge_regions_Inr:
  assumes "merge_regions lowest eliminated msk elim_regions lowest_region m d = Inr (res, m', d')"
  shows "\<exists>d1 c rs.
           save_mask (Png lowest) msk d = Inr d1
         \<and> get_center (weighted_points elim_regions lowest_region) = Inr c
         \<and> efold pop_key eliminated
              (AList.update lowest
                 (lowest_region\<lparr>center := c,
                    weight := weight lowest_region + sum_list (map weight elim_regions)\<rparr>)
                 (regions m)) = Inr rs
         \<and> adjust_region_max eliminated (m\<lparr>regions := rs\<rparr>) = Inr m'
         \<and> res = Some lowest \<and> d' = redraw_and_save m' d1"
  using assms unfolding merge_regions_def ebind_eq_Inr by auto

lemma combine_masks_Some:
  assumes "combine_masks mask_list m d = Inr (Some lowest, m', d')" and "lowest \<noteq> 0"
  shows "\<exists>eliminated msk elim_regions lowest_region.
           img_combine_masks mask_list d = Inr (Some (lowest, eliminated, msk))
         \<and> lookup_all (regions m) eliminated = Some elim_regions
         \<and> map_of (regions m) lowest = Some lowest_region
         \<and> merge_regions lowest eliminated msk elim_regions lowest_region m d = Inr (Some lowest, m', d')"
proof -
  from assms(1) obtain res where
    img: "img_combine_masks mask_list d = Inr res" and
    rest: "(case res of
         None \<Rightarrow> Inr (None, m, d)
       | Some (lowest, eliminated, msk) \<Rightarrow>
           if lowest = 0 then Inr (Some lowest, m, d)
           else (case (lookup_all (regions m) eliminated, map_of (regions m) lowest) of
                   (Some elim_regions, Some lowest_region) \<Rightarrow>
                     merge_regions lowest eliminated msk elim_regions lowest_region m d
                 | _ \<Rightarrow> Inr (None, m, d))) = Inr (Some lowest, m', d')"
    unfolding combine_masks_def ebind_eq_Inr by blast
  from rest obtain l eliminated msk where res: "res = Some (l, eliminated, msk)"
    by (cases res) auto
  from rest res assms(2) have l0: "l \<noteq> 0"
    by (auto split: if_splits)
  from rest res l0 obtain elim_regions lowest_region where
    lk: "lookup_all (regions m) eliminated = Some elim_regions"
        "map_of (regions m) l = Some lowest_region" and
    mr: "merge_regions l eliminated msk elim_regions lowest_region m d = Inr (Some lowest, m', d')"
    by (auto split: option.splits)
  from merge_regions_Inr [OF mr] have "l = lowest" by auto
  with img res lk mr show ?thesis by auto
qed

lemma img_combine_masks_Some:
  assumes "img_combine_masks mask_list d = Inr (Some (l, el, msk))"
  shows "\<exists>base_img ms. blank_png d = Some base_img \<and> masks_dir d = Some ms
           \<and> 2 \<le> length mask_list
           \<and> efold (combine_step d) mask_list
                 (None, [], new_image (width base_img) (height base_img) 1) = Inr (Some l, el, msk)"
proof -
  from assms have len: "2 \<le> length mask_list"
    by (auto simp: img_combine_masks_def split: if_splits)
  from assms len obtain base_img where b: "blank_png d = Some base_img"
    by (cases "blank_png d") (auto simp: img_combine_masks_def)
  from assms len b obtain ms where ms: "masks_dir d = Some ms"
    by (cases "masks_dir d") (auto simp: img_combine_masks_def)
  from assms len b ms have
    "efold (combine_step d) mask_list
          (None, [], new_image (width base_img) (height base_img) 1) = Inr (Some l, el, msk)"
    by (auto simp: img_combine_masks_def ebind_eq_Inr split: prod.splits option.splits)
  with b ms len show ?thesis by simp
qed


section \<open>Deleting regions\<close>

lemma pop_keys_missing:
  "\<not> set ks \<subseteq> fst ` set rs \<Longrightarrow> snd (pop_keys ks rs) = False"
proof (induction ks arbitrary: rs)
  case Nil
  then show ?case by simp
next
  case (Cons k ks)
  show ?case
  proof (cases "k \<in> fst ` set rs")
    case False
    then show ?thesis by simp
  next
    case True
    with Cons.prems have "\<not> set ks \<subseteq> fst ` set (AList.delete k rs)"
      by (auto simp: AList.delete_eq)
    with Cons.IH True show ?thesis by simp
  qed
qed

text \<open>
  A key list with a key that is not in the registry makes \<open>delete_masks\<close> return
  \<open>False\<close>; the files and every field but \<open>regions\<close> are as before.
\<close>

lemma delete_masks_missing_returns_False:
  assumes "\<not> set mask_list \<subseteq> fst ` set (regions m)"
  shows "\<exists>rs. delete_masks mask_list m d = Inr (None, m\<lparr>regions := rs\<rparr>, d)"
proof -
  obtain rs b where p: "pop_keys mask_list (regions m) = (rs, b)"
    by (cases "pop_keys mask_list (regions m)")
  with pop_keys_missing [OF assms] have "b = False" by simp
  with p show ?thesis by (auto simp: delete_masks_def)
qed

text \<open>
  Claim C4 says that a key list with a key absent from the registry leaves the registry
  exactly as it was.  The loop of \<open>delete_masks\<close> has already popped the keys that come
  before the absent one when the \<open>KeyError\<close> is caught: on the registry with regions 1
  and 2, deleting \<open>[1, 99]\<close> returns \<open>False\<close> and region 1 is gone.
\<close>

theorem delete_masks_absent_key_removes_earlier_keys:
  "delete_masks [1, 99] two_regions no_files
     = Inr (None, two_regions\<lparr>regions := [(2, region_b)]\<rparr>, no_files)"
  by (simp add: delete_masks_def two_regions_def AList.delete_eq)

section \<open>Operations that raise\<close>

text \<open>
  Claim C3 says that no operation of the engine lets an exception escape, in particular
  for a base image narrower or lower than 10 pixels, for a merge that names a mask file
  missing from the directory, and for a delete that removes every region.  The code
  guards some failures (a missing base image, a missing masks directory, a key missing
  from the registry) and returns \<open>False\<close> there, but not these three: on a 5 by 5
  image the chunk size \<open>5 // 10\<close> is 0 and \<open>range\<close> raises \<open>ValueError\<close>; opening
  the missing \<open>2.png\<close> raises \<open>FileNotFoundError\<close>; and after every region is
  deleted \<open>max\<close> of no keys raises \<open>ValueError\<close>.
\<close>

theorem operations_raise:
  "execute \<lparr>wall_color = 0, region_color = None\<rparr> tiny_disk = Some (Inl ValueError)
   \<and> map_sum id fst (combine_masks [1, 2] two_regions missing_mask_disk) = Inl FileNotFoundError
   \<and> map_sum id fst (delete_masks [1, 2] two_regions no_files) = Inl ValueError"
proof (intro conjI)
  show "execute \<lparr>wall_color = 0, region_color = None\<rparr> tiny_disk = Some (Inl ValueError)"
    by (simp add: execute_def tiny_disk_def new_image_def scan_order_def chunker_def ebind_def)
  show "map_sum id fst (combine_masks [1, 2] two_regions missing_mask_disk) = Inl FileNotFoundError"
    by code_simp
  show "map_sum id fst (delete_masks [1, 2] two_regions no_files) = Inl ValueError"
    by code_simp
qed

section \<open>The field \<open>region_max\<close>\<close>

text \<open>
  Claim C2 says that after \<open>generate_masks\<close>, \<open>combine_masks\<close>, \<open>delete_masks\<close>,
  \<open>prune_masks\<close> and \<open>sort_regions\<close> the field \<open>region_max\<close> is the largest key of
  the registry.  \<open>generate_masks\<close> sets it to \<open>len(regions) + 1\<close>: on the image with
  one white pixel the only key is 1 and \<open>region_max\<close> is 2.  \<open>sort_regions\<close> does not
  set it at all: the registry with keys 1 and 5 has keys 1 and 2 afterwards and
  \<open>region_max\<close> is still 5.
\<close>

theorem region_max_not_max_key:
  "map_option (map_sum id (\<lambda>(regs, m', d'). (map fst (regions m'), region_max m')))
     (generate_masks new_map one_pixel_disk) = Some (Inr ([1], Some 2))
   \<and> map_sum id (\<lambda>(m', d'). (map fst (regions m'), region_max m'))
        (sort_regions by_column True sparse_regions sparse_disk) = Inr ([1, 2], Some 5)"
  by code_simp

section \<open>The seed of a flood fill\<close>

lemma floodfill_seed_raises:
  "pixel_index im xy = None \<Longrightarrow> floodfill im xy val border thresh = Some ([], im)"
  by (simp add: floodfill_def getpixel_def)

lemma floodfill_seed_has_fill_color:
  "getpixel im xy = Inr background \<Longrightarrow> color_diff val background \<le> thresh
   \<Longrightarrow> floodfill im xy val border thresh = Some ([], im)"
  by (simp add: floodfill_def)

text \<open>
  Claim C10 says that \<open>floodfill\<close> returns the empty set and leaves the grid unchanged
  when the seed lies outside the grid, and when the seed already has the fill colour up to
  the threshold.  The second case holds (\<open>floodfill_seed_has_fill_color\<close>), and so does
  the first for a seed whose pixel access raises (\<open>floodfill_seed_raises\<close>).  But the
  seed is read with \<open>pixel[x, y]\<close> before any test of its sign, and a negative index
  counts from the far edge: on a strip of two pixels of colour 5 the seed \<open>(-1, 0)\<close> is
  outside the grid, yet the fill writes the pixel (1, 0), goes on from (0, 0) and
  returns both coordinates.  The loop itself skips negative neighbours.
\<close>

theorem floodfill_negative_seed_fills:
  "map_option (\<lambda>(filled, im). (filled, map (pix im) [(0, 0), (1, 0)]))
     (floodfill (new_image 2 1 5) (- 1, 0) 0 None 0) = Some ([(0, 0), (- 1, 0)], [0, 0])"
  by code_simp

section \<open>The merged mask\<close>

text \<open>
  Claim C1 says that a pixel is filled in the merged mask if and only if it is filled in
  every input mask.  Filled is 0 and \<open>logical_and\<close> yields 0 as soon as one operand
  is 0: with \<open>mask_left\<close> (pixel (0, 0) only) and \<open>mask_right\<close> (pixel (1, 0) only)
  the merged mask fills (0, 0), which \<open>mask_right\<close> does not.
\<close>

theorem merged_mask_counterexample:
  "map_sum id (map_option (\<lambda>(lowest, eliminated, msk). (lowest, eliminated, pix msk (0, 0))))
     (img_combine_masks [1, 2] strip_disk) = Inr (Some (1, [2], 0))
   \<and> pix mask_right (0, 0) \<noteq> 0"
  by code_simp

text \<open>
  Claim C1, amended: after a merge that succeeds, the mask file of the surviving key holds
  the merged mask, and a pixel is filled (0) in it if and only if it is filled in at least
  one of the input masks: the values are intersected, the memberships are united.
\<close>

theorem merged_mask_is_union:
  assumes "combine_masks mask_list m d = Inr (Some lowest, m', d')" and "lowest \<noteq> 0"
  shows "\<exists>msk. open_mask d' (Png lowest) = Inr msk
           \<and> (\<forall>q. pix msk q = 0 \<longleftrightarrow>
                  (\<exists>k \<in> set mask_list. \<exists>mk. open_mask d (Png k) = Inr mk \<and> pix mk q = 0))"
proof -
  from combine_masks_Some [OF assms] obtain eliminated msk elim_regions lowest_region where
    img: "img_combine_masks mask_list d = Inr (Some (lowest, eliminated, msk))" and
    mr: "merge_regions lowest eliminated msk elim_regions lowest_region m d = Inr (Some lowest, m', d')"
    by blast
  from merge_regions_Inr [OF mr] obtain d1 where
    sv: "save_mask (Png lowest) msk d = Inr d1" and
    d': "d' = redraw_and_save m' d1"
    by blast
  from img_combine_masks_Some [OF img] obtain base_img ms where
    "blank_png d = Some base_img" "masks_dir d = Some ms" "2 \<le> length mask_list" and
    fold: "efold (combine_step d) mask_list (None, [], new_image (width base_img) (height base_img) 1)
             = Inr (Some lowest, eliminated, msk)"
    by auto
  have "pix msk q = 0 \<longleftrightarrow>
          (\<exists>k \<in> set mask_list. \<exists>mk. open_mask d (Png k) = Inr mk \<and> pix mk q = 0)" for q
    using combine_fold_pix [OF fold, of q] by (simp add: new_image_def)
  moreover have "open_mask d' (Png lowest) = Inr msk"
    by (simp add: d' open_mask_save_mask [OF sv])
  ultimately show ?thesis by blast
qed


theorem merged_mask_is_union_witness:
  "\<exists>m' d' msk. combine_masks [1, 2] two_regions strip_disk = Inr (Some 1, m', d')
      \<and> open_mask d' (Png 1) = Inr msk \<and> pix msk (0, 0) = 0 \<and> pix msk (1, 0) = 0"
proof -
  have "map_sum id fst (combine_masks [1, 2] two_regions strip_disk) = Inr (Some 1)"
    by code_simp
  then obtain m' d' where c: "combine_masks [1, 2] two_regions strip_disk = Inr (Some 1, m', d')"
    by (cases "combine_masks [1, 2] two_regions strip_disk") auto
  from merged_mask_is_union [OF c] obtain msk where
    o: "open_mask d' (Png 1) = Inr msk" and
    px: "\<And>q. pix msk q = 0 \<longleftrightarrow>
           (\<exists>k \<in> set [1, 2]. \<exists>mk. open_mask strip_disk (Png k) = Inr mk \<and> pix mk q = 0)"
    by auto
  have "pix msk (0, 0) = 0"
    using px [of "(0, 0)"] by (simp add: strip_disk_def open_mask_def mask_left_def)
  moreover have "pix msk (1, 0) = 0"
    using px [of "(1, 0)"] by (simp add: strip_disk_def open_mask_def mask_right_def)
  ultimately show ?thesis using c o by blast
qed


section \<open>Merging regions\<close>

lemma Min_insert_lower:
  "finite A \<Longrightarrow> (k::int) < l \<Longrightarrow> Min (insert l (insert k A)) = Min (insert k A)"
  using Min.insert_remove by fastforce

lemma Min_insert_not_lower:
  "finite A \<Longrightarrow> \<not> (k::int) < l \<Longrightarrow> Min (insert l (insert k A)) = Min (insert l A)"
  using Min_insert by fastforce

lemma combine_fold_lowest:
  "efold (combine_step d) ks (Some l, el, acc) = Inr (lo', el', acc') \<Longrightarrow>
     lo' = Some (Min (insert l (set ks)))
     \<and> mset el' + {#Min (insert l (set ks))#} = mset el + mset ks + {#l#}"
proof (induction ks arbitrary: l el acc)
  case Nil
  then show ?case by simp
next
  case (Cons k ks)
  from Cons.prems obtain lo1 el1 acc1 where
    step: "combine_step d k (Some l, el, acc) = Inr (lo1, el1, acc1)" and
    rest: "efold (combine_step d) ks (lo1, el1, acc1) = Inr (lo', el', acc')"
    by (auto split: sum.splits)
  show ?case
  proof (cases "k < l")
    case True
    with step have s: "lo1 = Some k" "el1 = el @ [l]"
      by (auto simp: combine_step_def ebind_eq_Inr)
    have m: "Min (insert l (set (k # ks))) = Min (insert k (set ks))"
      unfolding list.set by (rule Min_insert_lower) (use True in simp_all)
    define M where "M = Min (insert k (set ks))"
    from Cons.IH [OF rest [unfolded s]] have "lo' = Some M \<and> mset el' + {#M#} = mset (el @ [l]) + mset ks + {#k#}"
      by (simp only: M_def)
    then show ?thesis
      unfolding m M_def [symmetric] by simp
  next
    case False
    with step have s: "lo1 = Some l" "el1 = el @ [k]"
      by (auto simp: combine_step_def ebind_eq_Inr)
    have m: "Min (insert l (set (k # ks))) = Min (insert l (set ks))"
      unfolding list.set by (rule Min_insert_not_lower) (use False in simp_all)
    define M where "M = Min (insert l (set ks))"
    from Cons.IH [OF rest [unfolded s]] have "lo' = Some M \<and> mset el' + {#M#} = mset (el @ [k]) + mset ks + {#l#}"
      by (simp only: M_def)
    then show ?thesis
      unfolding m M_def [symmetric] by simp
  qed
qed

lemma combine_step_succeeds:
  "open_mask d (Png k) = Inr mk \<Longrightarrow> \<exists>st1. combine_step d k st = Inr st1"
  by (cases st) (auto simp: combine_step_def split: option.splits)

lemma combine_fold_succeeds:
  "\<forall>k \<in> set ks. \<exists>mk. open_mask d (Png k) = Inr mk \<Longrightarrow> \<exists>st'. efold (combine_step d) ks st = Inr st'"
proof (induction ks arbitrary: st)
  case Nil
  show ?case by (rule exI [of _ st]) simp
next
  case (Cons k ks)
  from Cons.prems obtain mk where "open_mask d (Png k) = Inr mk" by auto
  from combine_step_succeeds [OF this] obtain st1 where "combine_step d k st = Inr st1"
    by blast
  with Cons show ?case by simp
qed

lemma img_combine_masks_lowest:
  assumes "2 \<le> length mask_list" and "blank_png d = Some base_img"
    and "\<forall>k \<in> set mask_list. \<exists>mk. open_mask d (Png k) = Inr mk"
  shows "\<exists>el msk. img_combine_masks mask_list d = Inr (Some (Min (set mask_list), el, msk))
           \<and> mset el + {#Min (set mask_list)#} = mset mask_list"
proof -
  from assms(1) obtain k ks where ml: "mask_list = k # ks" by (cases mask_list) auto
  from assms(3) ml obtain mk where mk: "open_mask d (Png k) = Inr mk" by auto
  then obtain ms where ms: "masks_dir d = Some ms"
    by (auto simp: open_mask_def split: option.splits)
  let ?im = "new_image (width base_img) (height base_img) 1"
  have first: "combine_step d k (None, [], ?im) = Inr (Some k, [], logical_and ?im mk)"
    by (simp add: combine_step_def mk)
  from assms(3) ml have "\<forall>k \<in> set ks. \<exists>mk. open_mask d (Png k) = Inr mk" by simp
  from combine_fold_succeeds [OF this] obtain lo' el' acc' where
    f: "efold (combine_step d) ks (Some k, [], logical_and ?im mk) = Inr (lo', el', acc')"
    by (metis prod_cases3)
  from combine_fold_lowest [OF f] have
    lo': "lo' = Some (Min (set mask_list))" and
    el': "mset el' + {#Min (set mask_list)#} = mset mask_list"
    by (simp_all add: ml)
  have "img_combine_masks mask_list d = Inr (Some (Min (set mask_list), el', acc'))"
    using assms(1) by (simp add: img_combine_masks_def assms(2) ms ml [symmetric])
      (simp add: ml first f lo')
  with el' show ?thesis by blast
qed

lemma sum_list_mset_eq:
  fixes g :: "'a \<Rightarrow> 'b::comm_monoid_add"
  assumes "mset xs + {#a#} = mset ys"
  shows "sum_list (map g xs) + g a = sum_list (map g ys)"
proof -
  have "sum_mset (image_mset g (mset xs + {#a#})) = sum_mset (image_mset g (mset ys))"
    by (simp only: assms)
  then show ?thesis
    by (simp add: sum_mset_sum_list add.commute flip: mset_map)
qed

lemma weighted_sum:
  "sum_list (map f (concat (map (\<lambda>x. replicate (n x) (c x)) xs)))
     = (\<Sum>x\<leftarrow>xs. real (n x) * f (c x))"
  for f :: "'b \<Rightarrow> real"
  by (induction xs) (simp_all add: sum_list_replicate)

lemma weighted_length:
  "length (concat (map (\<lambda>x. replicate (n x) (c x)) xs)) = (\<Sum>x\<leftarrow>xs. n x)"
  by (induction xs) simp_all

lemma keys_delete: "fst ` set (AList.delete k rs) = fst ` set rs - {k}"
  using delete_keys [of k rs] by (metis list.set_map set_removeAll)

lemma pop_fold:
  "distinct el \<Longrightarrow> set el \<subseteq> fst ` set rs \<Longrightarrow>
     efold pop_key el rs = Inr (filter (\<lambda>p. fst p \<notin> set el) rs)"
proof (induction el arbitrary: rs)
  case Nil
  then show ?case by simp
next
  case (Cons k el)
  let ?rs = "AList.delete k rs"
  from Cons.prems have k: "k \<in> fst ` set rs" by simp
  from Cons.prems have "set el \<subseteq> fst ` set ?rs"
    by (auto simp: keys_delete)
  with Cons.IH [of ?rs] Cons.prems have
    "efold pop_key el ?rs = Inr (filter (\<lambda>p. fst p \<notin> set el) ?rs)" by simp
  moreover have "filter (\<lambda>p. fst p \<notin> set el) ?rs = filter (\<lambda>p. fst p \<notin> set (k # el)) rs"
    by (auto simp: AList.delete_eq intro: filter_cong)
  moreover from k have "pop_key k rs = Inr ?rs" by (simp add: pop_key_def)
  ultimately show ?case by simp
qed

lemma map_of_filter_keys:
  "map_of (filter (\<lambda>p. fst p \<notin> S) rs) k = (if k \<in> S then None else map_of rs k)"
  by (induction rs) auto

lemma lookup_all_present:
  "\<forall>k \<in> set ks. map_of rs k \<noteq> None \<Longrightarrow> lookup_all rs ks = Some (map (\<lambda>k. the (map_of rs k)) ks)"
  by (simp add: lookup_all_def)

lemma adjust_region_max_succeeds:
  "regions m \<noteq> [] \<Longrightarrow> \<exists>m'. adjust_region_max ks m = Inr m'"
  by (cases "regions m") (auto simp: adjust_region_max_def max_key_def)

lemma adjust_region_max_data:
  "adjust_region_max ks m = Inr m' \<Longrightarrow> regions m' = regions m"
  by (auto simp: adjust_region_max_def ebind_eq_Inr split: if_splits)

lemma real_sum_list_nat: "real (sum_list (map n xs)) = (\<Sum>x\<leftarrow>xs. real (n x))"
  by (induction xs) simp_all

lemma real_sum_list_int: "real_of_int (sum_list (map w xs)) = (\<Sum>x\<leftarrow>xs. real_of_int (w x))"
  by (induction xs) simp_all

text \<open>
  Claim C6: a merge of two or more distinct keys of the registry (positive keys, regions of
  positive weight, a base image and a mask file for every key, as the data model has them)
  returns the lowest key; every other key of the list is gone from the registry and the
  keys outside the list keep their regions; the region of the lowest key has the sum of the
  weights, keeps its attributes, and its centre is the mean of the centres weighted by the
  weights, which is what counting each centre once per unit of its weight gives.
\<close>

theorem combine_masks_lowest_survives:
  assumes len: "2 \<le> length mask_list" and dist: "distinct mask_list"
    and pos: "\<forall>k \<in> set mask_list. 0 < k"
    and present: "\<forall>k \<in> set mask_list. \<exists>r. map_of (regions m) k = Some r \<and> 0 < weight r"
    and blank: "blank_png d = Some base_img"
    and files: "\<forall>k \<in> set mask_list. \<exists>mk. open_mask d (Png k) = Inr mk"
  shows "\<exists>m' d' r'.
           combine_masks mask_list m d = Inr (Some (Min (set mask_list)), m', d')
         \<and> map_of (regions m') (Min (set mask_list)) = Some r'
         \<and> (\<forall>k. k \<noteq> Min (set mask_list) \<longrightarrow>
                map_of (regions m') k = (if k \<in> set mask_list then None else map_of (regions m) k))
         \<and> weight r' = (\<Sum>k\<leftarrow>mask_list. weight (region_of m k))
         \<and> center r' =
             ((\<Sum>k\<leftarrow>mask_list. real_of_int (weight (region_of m k)) * fst (center (region_of m k)))
                / real_of_int (\<Sum>k\<leftarrow>mask_list. weight (region_of m k)),
              (\<Sum>k\<leftarrow>mask_list. real_of_int (weight (region_of m k)) * snd (center (region_of m k)))
                / real_of_int (\<Sum>k\<leftarrow>mask_list. weight (region_of m k)))
         \<and> data r' = data (region_of m (Min (set mask_list)))"
proof -
  define lowest where "lowest = Min (set mask_list)"
  from len have ne: "set mask_list \<noteq> {}" by auto
  then have low_in: "lowest \<in> set mask_list"
    unfolding lowest_def by (intro Min_in) simp_all
  with pos have low0: "lowest \<noteq> 0" by auto
  from img_combine_masks_lowest [OF len blank files] obtain el msk where
    img: "img_combine_masks mask_list d = Inr (Some (lowest, el, msk))" and
    ms: "mset el + {#lowest#} = mset mask_list"
    unfolding lowest_def by blast
  from ms dist have "distinct (lowest # el)"
    by (metis add_mset_add_single distinct.simps(2) mset.simps(2) mset_eq_imp_distinct_iff)
  then have del: "distinct el" and lnel: "lowest \<notin> set el" by simp_all
  from ms have sel: "set mask_list = insert lowest (set el)"
    by (metis add_mset_add_single mset.simps(2) mset_eq_setD list.simps(15))
  let ?R = "regions m"
  have pres_el: "\<forall>k \<in> set el. map_of ?R k \<noteq> None"
    using present sel by auto
  define ers where "ers = map (region_of m) el"
  have la: "lookup_all ?R el = Some ers"
    using lookup_all_present [OF pres_el] by (simp add: ers_def region_of_def [abs_def])
  from present low_in obtain lr where lr: "map_of ?R lowest = Some lr" and wlr: "0 < weight lr"
    by blast
  then have lr_of: "region_of m lowest = lr" by (simp add: region_of_def)
  from files low_in obtain ms0 where dir: "masks_dir d = Some ms0"
    by (auto simp: open_mask_def split: option.splits)
  define d1 where "d1 = d\<lparr>masks_dir := Some (AList.update (Png lowest) msk ms0)\<rparr>"
  have sv: "save_mask (Png lowest) msk d = Inr d1"
    by (simp add: save_mask_def dir d1_def)
  define wp where "wp = weighted_points ers lr"
  have wpos: "\<forall>k \<in> set mask_list. 0 < weight (region_of m k)"
    using present by (auto simp: region_of_def)
  have wne: "wp \<noteq> []"
    using wlr by (simp add: wp_def weighted_points_def)
  define c where "c = (sum_list (map fst wp) / real (length wp), sum_list (map snd wp) / real (length wp))"
  have gc: "get_center wp = Inr c"
    using wne by (simp add: get_center_def c_def)
  define lr' where "lr' = lr\<lparr>center := c, weight := weight lr + sum_list (map weight ers)\<rparr>"
  define rs0 where "rs0 = AList.update lowest lr' ?R"
  define rs where "rs = filter (\<lambda>p. fst p \<notin> set el) rs0"
  have "lowest \<in> fst ` set ?R"
    using lr by (metis map_of_eq_None_iff option.distinct(1))
  then have "map fst rs0 = map fst ?R"
    by (simp add: rs0_def update_keys)
  then have keys0: "fst ` set rs0 = fst ` set ?R"
    by (metis set_map)
  have "set el \<subseteq> fst ` set rs0"
    unfolding keys0 using pres_el by (auto simp: map_of_eq_None_iff)
  from pop_fold [OF del this] have pf: "efold pop_key el rs0 = Inr rs"
    by (simp add: rs_def)
  have m_low: "map_of rs lowest = Some lr'"
    using lnel by (simp add: rs_def map_of_filter_keys rs0_def update_conv')
  then have "rs \<noteq> []" by auto
  then have "regions (m\<lparr>regions := rs\<rparr>) \<noteq> []" by simp
  from adjust_region_max_succeeds [OF this] obtain m' where
    adj: "adjust_region_max el (m\<lparr>regions := rs\<rparr>) = Inr m'" by blast
  from adjust_region_max_data [OF adj] have rm': "regions m' = rs" by simp
  have mr: "merge_regions lowest el msk ers lr m d = Inr (Some lowest, m', redraw_and_save m' d1)"
    by (simp add: merge_regions_def sv gc [unfolded wp_def] pf [unfolded rs0_def lr'_def] adj)
  have cm: "combine_masks mask_list m d = Inr (Some lowest, m', redraw_and_save m' d1)"
    by (simp add: combine_masks_def img low0 la lr mr)
  have others: "\<forall>k. k \<noteq> lowest \<longrightarrow>
      map_of (regions m') k = (if k \<in> set mask_list then None else map_of ?R k)"
    by (auto simp: rm' rs_def map_of_filter_keys rs0_def update_conv' sel)
  have wsum: "weight lr' = (\<Sum>k\<leftarrow>mask_list. weight (region_of m k))"
    using sum_list_mset_eq [OF ms, of "\<lambda>k. weight (region_of m k)"]
    by (simp add: lr'_def ers_def lr_of comp_def)
  have nat_w: "\<And>k. k \<in> set mask_list \<Longrightarrow> real (nat (weight (region_of m k))) = real_of_int (weight (region_of m k))"
    using wpos by auto
  have fsum: "sum_list (map f wp)
      = (\<Sum>k\<leftarrow>mask_list. real_of_int (weight (region_of m k)) * f (center (region_of m k)))"
    for f :: "real \<times> real \<Rightarrow> real"
  proof -
    have "sum_list (map f wp)
        = (\<Sum>k\<leftarrow>el. real (nat (weight (region_of m k))) * f (center (region_of m k)))
          + real (nat (weight (region_of m lowest))) * f (center (region_of m lowest))"
      by (simp add: wp_def weighted_points_def weighted_sum ers_def comp_def lr_of sum_list_replicate)
    also have "\<dots> = (\<Sum>k\<leftarrow>mask_list. real (nat (weight (region_of m k))) * f (center (region_of m k)))"
      by (rule sum_list_mset_eq [OF ms])
    also have "\<dots> = (\<Sum>k\<leftarrow>mask_list. real_of_int (weight (region_of m k)) * f (center (region_of m k)))"
      by (rule arg_cong [where f = sum_list], rule map_cong) (simp_all add: nat_w)
    finally show ?thesis .
  qed
  have lsum: "real (length wp) = real_of_int (\<Sum>k\<leftarrow>mask_list. weight (region_of m k))"
  proof -
    have "length wp = (\<Sum>k\<leftarrow>el. nat (weight (region_of m k))) + nat (weight (region_of m lowest))"
      by (simp add: wp_def weighted_points_def weighted_length ers_def comp_def lr_of)
    also have "\<dots> = (\<Sum>k\<leftarrow>mask_list. nat (weight (region_of m k)))"
      by (rule sum_list_mset_eq [OF ms])
    finally have "real (length wp) = (\<Sum>k\<leftarrow>mask_list. real (nat (weight (region_of m k))))"
      by (simp add: real_sum_list_nat)
    also have "\<dots> = (\<Sum>k\<leftarrow>mask_list. real_of_int (weight (region_of m k)))"
      by (rule arg_cong [where f = sum_list], rule map_cong) (simp_all add: nat_w)
    finally show ?thesis by (simp add: real_sum_list_int)
  qed
  have cen: "center lr' =
             ((\<Sum>k\<leftarrow>mask_list. real_of_int (weight (region_of m k)) * fst (center (region_of m k)))
                / real_of_int (\<Sum>k\<leftarrow>mask_list. weight (region_of m k)),
              (\<Sum>k\<leftarrow>mask_list. real_of_int (weight (region_of m k)) * snd (center (region_of m k)))
                / real_of_int (\<Sum>k\<leftarrow>mask_list. weight (region_of m k)))"
    by (simp add: lr'_def c_def fsum lsum)
  have dat: "data lr' = data (region_of m lowest)"
    by (simp add: lr'_def lr_of)
  from cm m_low others wsum cen dat show ?thesis
    unfolding lowest_def [symmetric] rm' [symmetric] by blast
qed


theorem combine_masks_lowest_survives_witness:
  "\<exists>m' d' r'. combine_masks [3, 5, 2] three_regions three_disk = Inr (Some 2, m', d')
      \<and> map_of (regions m') 2 = Some r' \<and> map_of (regions m') 3 = None
      \<and> map_of (regions m') 5 = None \<and> weight r' = 9 \<and> center r' = (41 / 9, 23 / 9)"
proof -
  have h1: "2 \<le> length [3, 5, 2 :: int]" and h2: "distinct [3, 5, 2 :: int]"
    and h3: "\<forall>k \<in> set [3, 5, 2 :: int]. 0 < k"
    by simp_all
  have h4: "\<forall>k \<in> set [3, 5, 2]. \<exists>r. map_of (regions three_regions) k = Some r \<and> 0 < weight r"
    by (simp add: three_regions_def region_a_def region_b_def region_c_def)
  have h5: "blank_png three_disk = Some (new_image 2 1 255)"
    by (simp add: three_disk_def)
  have h6: "\<forall>k \<in> set [3, 5, 2]. \<exists>mk. open_mask three_disk (Png k) = Inr mk"
    by (simp add: three_disk_def open_mask_def)
  have mn: "Min (set [3, 5, 2 :: int]) = 2" by simp
  from combine_masks_lowest_survives [OF h1 h2 h3 h4 h5 h6, unfolded mn]
  obtain m' d' r' where
    c: "combine_masks [3, 5, 2] three_regions three_disk = Inr (Some 2, m', d')" and
    r: "map_of (regions m') 2 = Some r'" and
    o: "\<forall>k. k \<noteq> 2 \<longrightarrow> map_of (regions m') k
          = (if k \<in> set [3, 5, 2] then None else map_of (regions three_regions) k)" and
    w: "weight r' = (\<Sum>k\<leftarrow>[3, 5, 2]. weight (region_of three_regions k))" and
    ce: "center r' =
             ((\<Sum>k\<leftarrow>[3, 5, 2]. real_of_int (weight (region_of three_regions k)) * fst (center (region_of three_regions k)))
                / real_of_int (\<Sum>k\<leftarrow>[3, 5, 2]. weight (region_of three_regions k)),
              (\<Sum>k\<leftarrow>[3, 5, 2]. real_of_int (weight (region_of three_regions k)) * snd (center (region_of three_regions k)))
                / real_of_int (\<Sum>k\<leftarrow>[3, 5, 2]. weight (region_of three_regions k)))"
    by blast
  from o have "map_of (regions m') 3 = None" "map_of (regions m') 5 = None" by simp_all
  moreover from w have "weight r' = 9"
    by (simp add: region_of_def three_regions_def region_a_def region_b_def region_c_def)
  moreover from ce have "center r' = (41 / 9, 23 / 9)"
    by (simp add: region_of_def three_regions_def region_a_def region_b_def region_c_def)
  ultimately show ?thesis using c r by blast
qed

section \<open>Saving and loading\<close>








lemma update_new_key: "k \<notin> fst ` set al \<Longrightarrow> AList.update k v al = al @ [(k, v)]"
  by (induction al) auto





section \<open>Sorting the regions\<close>

lemma topmost_Min:
  assumes "points \<noteq> []"
  shows "\<exists>p. topmost points = Inr p \<and> p \<in> set points \<and> snd p = Min (snd ` set points)"
proof -
  from assms have "sort_key snd points \<noteq> []"
    by (metis length_sort length_0_conv)
  then obtain p ps where s: "sort_key snd points = p # ps"
    by (cases "sort_key snd points") auto
  have "sorted (map snd (sort_key snd points))" by (rule sorted_sort_key)
  with s have le: "\<forall>q \<in> set ps. snd p \<le> snd q" by simp
  have sp: "set points = insert p (set ps)"
    by (metis s set_sort list.simps(15))
  have "Min (snd ` set points) = snd p"
    by (rule Min_eqI) (use le sp in auto)
  with s sp show ?thesis
    by (simp add: topmost_def)
qed

lemma insort_key_map:
  "insort_key f (g x) (map g ys) = map g (insort_key (\<lambda>x. f (g x)) x ys)"
  by (induction ys) simp_all

lemma sort_key_map:
  "sort_key f (map g xs) = map g (sort_key (\<lambda>x. f (g x)) xs)"
  by (induction xs) (simp_all add: insort_key_map)

lemma insort_key_cong_set:
  "f x = g x \<Longrightarrow> \<forall>y \<in> set ys. f y = g y \<Longrightarrow> insort_key f x ys = insort_key g x ys"
  by (induction ys) simp_all

lemma sort_key_cong_set:
  "\<forall>x \<in> set xs. f x = g x \<Longrightarrow> sort_key f xs = sort_key g xs"
proof (induction xs)
  case Nil
  then show ?case by simp
next
  case (Cons x xs)
  then have "sort_key f xs = sort_key g xs" by simp
  moreover have "insort_key f x (sort_key g xs) = insort_key g x (sort_key g xs)"
    using Cons.prems by (intro insort_key_cong_set) simp_all
  ultimately show ?case by simp
qed

text \<open>The first loop of the sort: one entry per key, the topmost point and the key.\<close>

lemma topmost_hd:
  "points \<noteq> [] \<Longrightarrow> topmost points = Inr (hd (sort_key snd points))"
  using topmost_Min [of points] by (auto simp: topmost_def split: list.splits)

lemma sort_entry_fold:
  fixes d :: disk and listing :: "point set \<Rightarrow> point list"
  defines "P \<equiv> \<lambda>k. case open_mask d (Png k) of
                        Inr msk \<Rightarrow> hd (sort_key snd (listing (set (mask_points msk))))
                      | Inl _ \<Rightarrow> (0, 0)"
  assumes "\<forall>k \<in> set ks. \<exists>msk. open_mask d (Png k) = Inr msk \<and> mask_points msk \<noteq> []"
    and ls: "lists_sets listing"
  shows "efold (sort_entry listing d) ks acc = Inr (acc @ map (\<lambda>k. (P k, k)) ks)
           \<and> (\<forall>k \<in> set ks. snd (P k) = top_y d k)"
  using assms(2)
proof (induction ks arbitrary: acc)
  case Nil
  show ?case by simp
next
  case (Cons k ks)
  from Cons.prems obtain msk where o: "open_mask d (Png k) = Inr msk" and ne0: "mask_points msk \<noteq> []"
    by auto
  from ls have sl: "set (listing (set (mask_points msk))) = set (mask_points msk)"
    by (simp add: lists_sets_def)
  with ne0 have ne: "listing (set (mask_points msk)) \<noteq> []"
    by auto
  have Pk: "P k = hd (sort_key snd (listing (set (mask_points msk))))"
    by (simp add: P_def o)
  from topmost_hd [OF ne] have t: "topmost (listing (set (mask_points msk))) = Inr (P k)"
    by (simp add: Pk)
  from topmost_Min [OF ne] t have m: "snd (P k) = top_y d k"
    by (auto simp: top_y_def o sl)
  have step: "sort_entry listing d k acc = Inr (acc @ [(P k, k)])"
    by (simp add: sort_entry_def get_points_from_mask_def o t)
  from Cons.prems have "\<forall>k \<in> set ks. \<exists>msk. open_mask d (Png k) = Inr msk \<and> mask_points msk \<noteq> []"
    by simp
  from Cons.IH [OF this, of "acc @ [(P k, k)]"] step m show ?case
    by simp
qed


lemma rename_present:
  assumes "open_mask d old_mask = Inr im"
  shows "\<exists>d'. rename old_mask new_mask d = Inr d'
           \<and> (\<forall>f. open_mask d' f =
                  (if f = new_mask then Inr im
                   else if f = old_mask then Inl FileNotFoundError else open_mask d f))"
proof -
  from assms obtain ms where ms: "masks_dir d = Some ms" and f: "map_of ms old_mask = Some im"
    by (auto simp: open_mask_def split: option.splits)
  show ?thesis
    by (auto simp: rename_def ms f open_mask_def update_conv' delete_conv' split: option.splits)
qed

text \<open>The first pass: every mask of the registry gets the suffix \<open>_old\<close>.\<close>

lemma rename_old_fold:
  assumes "distinct ks" and "\<forall>k \<in> set ks. \<exists>im. open_mask d (Png k) = Inr im"
  shows "\<exists>d1. efold (\<lambda>num. rename (Png num) (OldPng num)) ks d = Inr d1
           \<and> (\<forall>f. open_mask d1 f =
                  (case f of
                     OldPng k \<Rightarrow> if k \<in> set ks then open_mask d (Png k) else open_mask d (OldPng k)
                   | Png k \<Rightarrow> if k \<in> set ks then Inl FileNotFoundError else open_mask d (Png k)))"
  using assms
proof (induction ks arbitrary: d)
  case Nil
  show ?case by (auto split: fname.splits)
next
  case (Cons k ks)
  from Cons.prems obtain im where im: "open_mask d (Png k) = Inr im" by auto
  from rename_present [OF im, of "OldPng k"] obtain d' where
    r: "rename (Png k) (OldPng k) d = Inr d'" and
    o: "\<And>f. open_mask d' f =
          (if f = OldPng k then Inr im
           else if f = Png k then Inl FileNotFoundError else open_mask d f)"
    by blast
  from Cons.prems have "distinct ks" and "\<forall>j \<in> set ks. \<exists>im. open_mask d' (Png j) = Inr im"
    by (auto simp: o)
  from Cons.IH [OF this] obtain d1 where
    f: "efold (\<lambda>num. rename (Png num) (OldPng num)) ks d' = Inr d1" and
    o1: "\<And>f. open_mask d1 f =
          (case f of
             OldPng j \<Rightarrow> if j \<in> set ks then open_mask d' (Png j) else open_mask d' (OldPng j)
           | Png j \<Rightarrow> if j \<in> set ks then Inl FileNotFoundError else open_mask d' (Png j))"
    by blast
  have "open_mask d1 f =
          (case f of
             OldPng j \<Rightarrow> if j \<in> set (k # ks) then open_mask d (Png j) else open_mask d (OldPng j)
           | Png j \<Rightarrow> if j \<in> set (k # ks) then Inl FileNotFoundError else open_mask d (Png j))" for f
    using Cons.prems(1) by (auto simp: o1 o im split: fname.splits)
  with r f show ?case by simp
qed

text \<open>The second pass: the masks get their new numbers, the regions their new keys.\<close>

lemma rename_new_fold:
  assumes "length js = length ks" and "distinct ks" and "distinct js"
    and "\<forall>k \<in> set ks. \<exists>im. open_mask d (OldPng k) = Inr im"
    and "\<forall>k \<in> set ks. map_of R k \<noteq> None"
    and "set js \<inter> fst ` set acc = {}"
  shows "\<exists>d'. efold (rename_new R) (zip js ks) (acc, d)
               = Inr (acc @ zip js (map (\<lambda>k. the (map_of R k)) ks), d')
           \<and> (\<forall>f. open_mask d' f =
                  (case f of
                     Png j \<Rightarrow> (case map_of (zip js ks) j of
                                 Some k \<Rightarrow> open_mask d (OldPng k)
                               | None \<Rightarrow> open_mask d (Png j))
                   | OldPng k \<Rightarrow> if k \<in> set ks then Inl FileNotFoundError
                                else open_mask d (OldPng k)))"
  using assms
proof (induction js ks arbitrary: acc d rule: list_induct2)
  case Nil
  show ?case by (auto split: fname.splits)
next
  case (Cons j js k ks)
  from Cons.prems obtain im where im: "open_mask d (OldPng k) = Inr im" by auto
  from Cons.prems obtain r where r: "map_of R k = Some r" by auto
  from rename_present [OF im, of "Png j"] obtain d1 where
    rn: "rename (OldPng k) (Png j) d = Inr d1" and
    o: "\<And>f. open_mask d1 f =
          (if f = Png j then Inr im
           else if f = OldPng k then Inl FileNotFoundError else open_mask d f)"
    by blast
  from Cons.prems have "j \<notin> fst ` set acc" by auto
  then have u: "AList.update j r acc = acc @ [(j, r)]" by (rule update_new_key)
  have step: "rename_new R (j, k) (acc, d) = Inr (acc @ [(j, r)], d1)"
    by (simp add: rename_new_def rn r u)
  from Cons.prems have p: "distinct ks" "distinct js"
    "\<forall>k' \<in> set ks. \<exists>im. open_mask d1 (OldPng k') = Inr im"
    "\<forall>k' \<in> set ks. map_of R k' \<noteq> None"
    "set js \<inter> fst ` set (acc @ [(j, r)]) = {}"
    by (auto simp: o)
  from Cons.IH [OF p] obtain d' where
    f: "efold (rename_new R) (zip js ks) (acc @ [(j, r)], d1)
          = Inr ((acc @ [(j, r)]) @ zip js (map (\<lambda>k. the (map_of R k)) ks), d')" and
    o': "\<And>f. open_mask d' f =
           (case f of
              Png j' \<Rightarrow> (case map_of (zip js ks) j' of
                          Some k' \<Rightarrow> open_mask d1 (OldPng k')
                        | None \<Rightarrow> open_mask d1 (Png j'))
            | OldPng k' \<Rightarrow> if k' \<in> set ks then Inl FileNotFoundError
                          else open_mask d1 (OldPng k'))"
    by blast
  from Cons.prems have jn: "map_of (zip js ks) j = None"
    by (simp add: map_of_zip_is_None Cons.hyps)
  have kz: "map_of (zip js ks) j' = Some k' \<Longrightarrow> k' \<noteq> k" for j' k'
    using Cons.prems(1) by (auto dest!: map_of_SomeD set_zip_rightD)
  have "open_mask d' f =
           (case f of
              Png j' \<Rightarrow> (case map_of (zip (j # js) (k # ks)) j' of
                          Some k' \<Rightarrow> open_mask d (OldPng k')
                        | None \<Rightarrow> open_mask d (Png j'))
            | OldPng k' \<Rightarrow> if k' \<in> set (k # ks) then Inl FileNotFoundError
                          else open_mask d (OldPng k'))" for f
    using jn kz by (auto simp: o' o im split: fname.splits option.splits)
  with step f r show ?case by simp
qed

text \<open>
  Claim C8: the fast sort gives the regions the keys 1 to N in the order of the rows of
  their topmost mask pixels, lowest row first (regions in the same row stay in the order
  of the registry), and after the two passes of renaming the mask file of every new key
  is the mask the region had before.  The topmost row \<open>top_y\<close> of a region is the least
  row among all the pixels of its mask, and the result is the same in whatever order
  Python iterates over the set of the points of a mask (\<open>listing\<close>).  Every region has
  a mask file with at least one pixel.  In the example every mask has two pixels and the
  iteration meets the lower one first; the regions with topmost rows 50, 10 and 30 get
  the keys 3, 1 and 2, where the rows of the pixels met first (52, 60 and 31) would give
  the keys 2, 3 and 1.
\<close>

theorem sort_regions_by_topmost:
  assumes dk: "distinct (map fst (regions m))"
    and masks: "\<forall>k \<in> set (map fst (regions m)).
                  \<exists>msk. open_mask d (Png k) = Inr msk \<and> mask_points msk \<noteq> []"
    and ls: "lists_sets listing"
  shows "\<exists>m' d'. sort_regions listing True m d = Inr (m', d')
           \<and> map fst (regions m') = map int [1 ..< Suc (length (regions m))]
           \<and> map snd (regions m') = map (region_of m) (sort_key (top_y d) (map fst (regions m)))
           \<and> (\<forall>i < length (regions m).
                 open_mask d' (Png (int i + 1))
                   = open_mask d (Png (sort_key (top_y d) (map fst (regions m)) ! i)))
           \<and> sorted (map (top_y d) (sort_key (top_y d) (map fst (regions m))))"
proof -
  let ?ks = "map fst (regions m)"
  let ?R = "regions m"
  define P where "P = (\<lambda>k. case open_mask d (Png k) of
                        Inr msk \<Rightarrow> hd (sort_key snd (listing (set (mask_points msk))))
                      | Inl _ \<Rightarrow> (0, 0))"
  define order where "order = sort_key (top_y d) ?ks"
  from sort_entry_fold [OF masks ls, of "[]"] have
    e: "efold (sort_entry listing d) ?ks [] = Inr (map (\<lambda>k. (P k, k)) ?ks)" and
    Py: "\<forall>k \<in> set ?ks. snd (P k) = top_y d k"
    by (simp_all add: P_def)
  have "map snd (sort_key (\<lambda>x. snd (fst x)) (map (\<lambda>k. (P k, k)) ?ks))
          = sort_key (\<lambda>k. snd (P k)) ?ks"
    by (simp add: sort_key_map comp_def)
  also have "\<dots> = order"
    unfolding order_def using Py by (rule sort_key_cong_set)
  finally have ord: "map snd (sort_key (\<lambda>x. snd (fst x)) (map (\<lambda>k. (P k, k)) ?ks)) = order" .
  have so: "set order = set ?ks" and lo: "length order = length ?R" and do: "distinct order"
    using dk by (simp_all add: order_def)
  from masks have pres: "\<forall>k \<in> set ?ks. \<exists>im. open_mask d (Png k) = Inr im" by blast
  from rename_old_fold [OF dk pres] obtain d1 where
    p1: "efold (\<lambda>num. rename (Png num) (OldPng num)) ?ks d = Inr d1" and
    o1: "\<And>f. open_mask d1 f =
          (case f of
             OldPng k \<Rightarrow> if k \<in> set ?ks then open_mask d (Png k) else open_mask d (OldPng k)
           | Png k \<Rightarrow> if k \<in> set ?ks then Inl FileNotFoundError else open_mask d (Png k))"
    by blast
  let ?js = "map int [1 ..< Suc (length order)]"
  have lj: "length ?js = length order" by (simp del: upt_Suc)
  have dj: "distinct ?js" by (simp add: distinct_map inj_on_def del: upt_Suc)
  have old: "\<forall>k \<in> set order. \<exists>im. open_mask d1 (OldPng k) = Inr im"
    using pres by (simp add: o1 so)
  have inR: "\<forall>k \<in> set order. map_of ?R k \<noteq> None"
    unfolding so by (simp add: map_of_eq_None_iff)
  have emp: "set ?js \<inter> fst ` set ([] :: (int \<times> region) list) = {}" by simp
  from rename_new_fold [OF lj do dj old inR emp] obtain d2 where
    p2: "efold (rename_new ?R) (zip ?js order) ([], d1)
           = Inr (zip ?js (map (\<lambda>k. the (map_of ?R k)) order), d2)" and
    o2: "\<And>f. open_mask d2 f =
           (case f of
              Png j \<Rightarrow> (case map_of (zip ?js order) j of
                          Some k \<Rightarrow> open_mask d1 (OldPng k)
                        | None \<Rightarrow> open_mask d1 (Png j))
            | OldPng k \<Rightarrow> if k \<in> set order then Inl FileNotFoundError
                         else open_mask d1 (OldPng k))"
    by auto
  define new where "new = zip ?js (map (region_of m) order)"
  have new_eq: "zip ?js (map (\<lambda>k. the (map_of ?R k)) order) = new"
    by (simp add: new_def region_of_def [abs_def])
  define m' where "m' = m\<lparr>regions := new\<rparr>"
  have res: "sort_regions listing True m d = Inr (m', save_data m' d2)"
    by (simp only: sort_regions_def not_True_eq_False if_False e ebind_Inr ord p1 enumerate1_def
        p2 new_eq prod.case m'_def)
  have k1: "map fst (regions m') = map int [1 ..< Suc (length ?R)]"
    using lj by (simp add: m'_def new_def lo [symmetric] del: upt_Suc)
  have k2: "map snd (regions m') = map (region_of m) order"
    using lj by (simp add: m'_def new_def del: upt_Suc)
  have k3: "open_mask (save_data m' d2) (Png (int i + 1)) = open_mask d (Png (order ! i))"
    if i: "i < length ?R" for i
  proof -
    from i lo have il: "i < length order" by simp
    then have "?js ! i = int i + 1" by (simp add: nth_map_upt del: upt_Suc)
    moreover from map_of_zip_nth [OF lj dj il] have "map_of (zip ?js order) (?js ! i) = Some (order ! i)" .
    ultimately have "map_of (zip ?js order) (int i + 1) = Some (order ! i)" by simp
    moreover from il so have "order ! i \<in> set ?ks" by (metis nth_mem)
    ultimately show ?thesis
      by (simp add: o2 o1)
  qed
  have k4: "sorted (map (top_y d) order)"
    unfolding order_def by (rule sorted_sort_key)
  from res k1 k2 k3 k4 show ?thesis
    unfolding order_def by blast
qed


theorem sort_regions_by_topmost_witness:
  "\<exists>m' d'. sort_regions by_column True column_regions column_disk = Inr (m', d')
      \<and> regions m' = [(1, region_b), (2, region_c), (3, region_a)]
      \<and> open_mask d' (Png 1) = Inr (column_mask 10 60)
      \<and> open_mask d' (Png 2) = Inr (column_mask 30 31)
      \<and> open_mask d' (Png 3) = Inr (column_mask 50 52)
      \<and> map (\<lambda>k. map_sum id by_column (get_points_from_mask column_disk k)) [1, 2, 3]
          = [Inr [(0, 52), (1, 50)], Inr [(0, 60), (1, 10)], Inr [(0, 31), (1, 30)]]"
proof -
  have ks: "map fst (regions column_regions) = [1, 2, 3]"
    by (simp add: column_regions_def)
  have h1: "distinct (map fst (regions column_regions))"
    by (simp add: ks)
  have ne: "mask_points (column_mask 50 52) \<noteq> []" "mask_points (column_mask 10 60) \<noteq> []"
    "mask_points (column_mask 30 31) \<noteq> []"
    by code_simp+
  have h2: "\<forall>k \<in> set (map fst (regions column_regions)).
              \<exists>msk. open_mask column_disk (Png k) = Inr msk \<and> mask_points msk \<noteq> []"
    by (simp add: ks column_disk_def open_mask_def ne)
  have h3: "lists_sets by_column"
    by (simp add: lists_sets_def by_column_def)
  have order: "sort_key (top_y column_disk) [1, 2, 3] = [2, 3, 1]"
    by code_simp
  have pts: "map (\<lambda>k. map_sum id by_column (get_points_from_mask column_disk k)) [1, 2, 3]
          = [Inr [(0, 52), (1, 50)], Inr [(0, 60), (1, 10)], Inr [(0, 31), (1, 30)]]"
    by code_simp
  from sort_regions_by_topmost [OF h1 h2 h3, unfolded ks order] obtain m' d' where
    s: "sort_regions by_column True column_regions column_disk = Inr (m', d')" and
    k1: "map fst (regions m') = map int [1 ..< Suc (length (regions column_regions))]" and
    k2: "map snd (regions m') = map (region_of column_regions) [2, 3, 1]" and
    k3: "\<forall>i < length (regions column_regions).
           open_mask d' (Png (int i + 1)) = open_mask column_disk (Png ([2, 3, 1] ! i))"
    by blast
  have "regions m' = zip (map fst (regions m')) (map snd (regions m'))"
    by (simp add: zip_map_fst_snd)
  also have "\<dots> = [(1, region_b), (2, region_c), (3, region_a)]"
    unfolding k1 k2 by (simp add: column_regions_def region_of_def)
  finally have r: "regions m' = [(1, region_b), (2, region_c), (3, region_a)]" .
  have l3: "length (regions column_regions) = 3"
    by (simp add: column_regions_def)
  from k3 [rule_format, of 0] k3 [rule_format, of 1] k3 [rule_format, of 2]
  have "open_mask d' (Png (int 0 + 1)) = open_mask column_disk (Png ([2, 3, 1] ! 0))"
    "open_mask d' (Png (int 1 + 1)) = open_mask column_disk (Png ([2, 3, 1] ! 1))"
    "open_mask d' (Png (int 2 + 1)) = open_mask column_disk (Png ([2, 3, 1] ! 2))"
    unfolding l3 by simp_all
  then have o: "open_mask d' (Png 1) = Inr (column_mask 10 60)"
    "open_mask d' (Png 2) = Inr (column_mask 30 31)"
    "open_mask d' (Png 3) = Inr (column_mask 50 52)"
    by (simp_all add: column_disk_def open_mask_def)
  show ?thesis
    by (rule exI [of _ m'], rule exI [of _ d']) (intro conjI s r o pts)
qed

section \<open>The flood fill ends and only fills unfilled pixels\<close>

lemma pixel_index_nonneg:
  "0 \<le> fst n \<Longrightarrow> 0 \<le> snd n \<Longrightarrow> pixel_index im n = (if in_image im n then Some n else None)"
  by (auto simp: pixel_index_def in_image_def Let_def)

lemma putpixel_after_getpixel:
  "getpixel im n = Inr c \<Longrightarrow> \<exists>im'. putpixel im n v = Inr im'"
  by (auto simp: getpixel_def putpixel_def split: option.splits)

text \<open>What one visit of a neighbour does: nothing to the image, or one pixel filled.\<close>

lemma visit_cases:
  assumes "visit val border background thresh (im, full_edge, new_edge) n = (im', full_edge', new_edge')"
  shows "(im' = im \<and> new_edge' = new_edge)
       \<or> (in_image im n \<and> fillable val border background thresh (pix im n)
          \<and> im' = im\<lparr>pix := (pix im)(n := val)\<rparr> \<and> new_edge' = List.insert n new_edge)"
proof (cases "n \<in> full_edge \<or> fst n < 0 \<or> snd n < 0")
  case True
  with assms show ?thesis by (auto simp: visit_def)
next
  case False
  then have nn: "0 \<le> fst n" "0 \<le> snd n" by auto
  show ?thesis
  proof (cases "in_image im n")
    case False
    with assms nn \<open>\<not> (n \<in> full_edge \<or> fst n < 0 \<or> snd n < 0)\<close> show ?thesis
      by (auto simp: visit_def getpixel_def pixel_index_nonneg)
  next
    case True
    with assms nn \<open>\<not> (n \<in> full_edge \<or> fst n < 0 \<or> snd n < 0)\<close> show ?thesis
      by (auto simp: visit_def getpixel_def putpixel_def pixel_index_nonneg split: if_splits)
  qed
qed

text \<open>A property that every visit keeps is kept by the sweep over an edge.\<close>

lemma sweep_induct:
  assumes "\<And>st n. Q st \<Longrightarrow> Q (visit val border background thresh st n)" and "Q st"
  shows "Q (sweep val border background thresh edge st)"
proof -
  have inner: "Q (fold (\<lambda>n st. visit val border background thresh st n) ns st)" if "Q st" for ns st
    using that by (induction ns arbitrary: st) (simp_all add: assms(1))
  have "Q (fold (\<lambda>p st. fold (\<lambda>n st. visit val border background thresh st n) (neighbours p) st) edge st)"
    using assms(2) by (induction edge arbitrary: st) (simp_all add: inner)
  then show ?thesis by (simp add: sweep_def)
qed

lemma finite_unfilled [simp]: "finite (unfilled im W)"
proof -
  have "unfilled im W \<subseteq> {0 ..< width im} \<times> {0 ..< height im}"
    by (auto simp: unfilled_def in_image_def)
  then show ?thesis by (rule finite_subset) simp
qed

lemma visit_keeps_sweep_ok:
  assumes ok: "sweep_ok im0 W S N st"
    and fl: "\<forall>c. fillable W border background thresh c \<longrightarrow> c \<noteq> W"
  shows "sweep_ok im0 W S N (visit W border background thresh st n)"
proof -
  obtain im full_edge new_edge where st: "st = (im, full_edge, new_edge)" by (cases st) auto
  obtain im' full_edge' new_edge' where
    v: "visit W border background thresh (im, full_edge, new_edge) n = (im', full_edge', new_edge')"
    by (cases "visit W border background thresh (im, full_edge, new_edge) n") auto
  from ok st have inv: "fill_inv im0 W im (S \<union> set new_edge)" and
    le: "card (unfilled im W) \<le> N" and lt: "new_edge \<noteq> [] \<longrightarrow> card (unfilled im W) < N"
    by (auto simp: sweep_ok_def)
  from visit_cases [OF v] show ?thesis
  proof
    assume "im' = im \<and> new_edge' = new_edge"
    with ok st v show ?thesis by (simp add: sweep_ok_def)
  next
    assume a: "in_image im n \<and> fillable W border background thresh (pix im n)
          \<and> im' = im\<lparr>pix := (pix im)(n := W)\<rparr> \<and> new_edge' = List.insert n new_edge"
    then have inn: "in_image im n" and nW: "pix im n \<noteq> W"
      and im': "im' = im\<lparr>pix := (pix im)(n := W)\<rparr>" and ne': "new_edge' = List.insert n new_edge"
      using fl by auto
    from inv have dims: "width im = width im0" "height im = height im0"
      by (auto simp: fill_inv_def)
    from inv have "pix im n = pix im0 n \<or> pix im n = W" unfolding fill_inv_def by blast
    with nW have n0: "pix im0 n \<noteq> W" by auto
    from inn dims have in0: "in_image im0 n" by (simp add: in_image_def)
    have inv': "fill_inv im0 W im' (S \<union> set new_edge')"
      using inv n0 in0 unfolding fill_inv_def im' ne' by (simp del: split_paired_All)
    have "unfilled im' W = unfilled im W - {n}"
      by (auto simp: unfilled_def im' in_image_def)
    moreover have "n \<in> unfilled im W"
      using inn nW by (simp add: unfilled_def)
    ultimately have "card (unfilled im' W) < card (unfilled im W)"
      by (metis card_Diff1_less finite_unfilled)
    with le have "card (unfilled im' W) < N" by simp
    with inv' v st show ?thesis by (simp add: sweep_ok_def)
  qed
qed

lemma fill_round_keeps:
  assumes inv: "loop_inv im0 W s"
    and fl: "\<forall>c. fillable W border background thresh c \<longrightarrow> c \<noteq> W"
  shows "loop_inv im0 W (fill_round W border background thresh s)"
    and "(case s of (im, edge, filled_pixels, full_edge) \<Rightarrow> edge \<noteq> [])
           \<Longrightarrow> fill_measure W (fill_round W border background thresh s) < fill_measure W s"
proof -
  obtain im edge filled full_edge where s: "s = (im, edge, filled, full_edge)"
    by (cases s) auto
  let ?S = "set edge \<union> set filled"
  let ?N = "card (unfilled im W)"
  obtain im' full_edge' new_edge where
    sw: "sweep W border background thresh edge (im, full_edge, []) = (im', full_edge', new_edge)"
    by (cases "sweep W border background thresh edge (im, full_edge, [])") auto
  from inv s have "sweep_ok im0 W ?S ?N (im, full_edge, [])"
    by (simp add: sweep_ok_def loop_inv_def)
  then have "sweep_ok im0 W ?S ?N (sweep W border background thresh edge (im, full_edge, []))"
    by (rule sweep_induct [rotated]) (rule visit_keeps_sweep_ok [OF _ fl])
  with sw have ok: "fill_inv im0 W im' (?S \<union> set new_edge)"
    and le: "card (unfilled im' W) \<le> ?N"
    and lt: "new_edge \<noteq> [] \<longrightarrow> card (unfilled im' W) < ?N"
    by (simp_all add: sweep_ok_def)
  have r: "fill_round W border background thresh s = (im', new_edge, List.union edge filled, set edge)"
    by (simp add: fill_round_def s sw)
  from ok show "loop_inv im0 W (fill_round W border background thresh s)"
    by (simp add: r loop_inv_def Un_ac)
  show "fill_measure W (fill_round W border background thresh s) < fill_measure W s"
    if "case s of (im, edge, filled_pixels, full_edge) \<Rightarrow> edge \<noteq> []"
  proof -
    have "fill_measure W (fill_round W border background thresh s)
            = card (unfilled im' W) + (if new_edge = [] then 0 else 1)"
      by (simp add: r fill_measure_def)
    moreover from that have "fill_measure W s = ?N + 1"
      by (simp add: s fill_measure_def)
    ultimately show ?thesis using le lt by auto
  qed
qed

text \<open>
  A fill in border mode from a seed with non-negative coordinates returns, and what it
  returns satisfies \<open>fill_inv\<close>: the filled pixels are pixels of the image that did not
  hold the fill value and hold it now, and no other pixel has changed.
\<close>

lemma floodfill_border_mode:
  assumes nn: "0 \<le> fst p" "0 \<le> snd p" and th: "0 \<le> thresh"
  shows "\<exists>filled im'. floodfill im p W (Some b) thresh = Some (filled, im')
           \<and> fill_inv im W im' (set filled)"
proof -
  have triv: "fill_inv im W im (set [])"
    by (simp add: fill_inv_def)
  have fl: "\<forall>c. fillable W (Some b) background thresh c \<longrightarrow> c \<noteq> W" for background
    by (simp add: fillable_def)
  show ?thesis
  proof (cases "in_image im p")
    case False
    with nn have "getpixel im p = Inl IndexError"
      by (simp add: getpixel_def pixel_index_nonneg)
    with triv show ?thesis by (simp add: floodfill_def)
  next
    case True
    with nn have g: "getpixel im p = Inr (pix im p)"
      by (simp add: getpixel_def pixel_index_nonneg)
    show ?thesis
    proof (cases "color_diff W (pix im p) \<le> thresh")
      case True
      with g triv show ?thesis by (simp add: floodfill_def)
    next
      case False
      with th have pW: "pix im p \<noteq> W" by (auto simp: color_diff_def)
      let ?im1 = "im\<lparr>pix := (pix im)(p := W)\<rparr>"
      let ?s0 = "(?im1, [p], [], {}) :: fill_state"
      from \<open>in_image im p\<close> nn have put: "putpixel im p W = Inr ?im1"
        by (simp add: putpixel_def pixel_index_nonneg)
      have i0: "loop_inv im W ?s0"
        using \<open>in_image im p\<close> pW by (simp add: loop_inv_def fill_inv_def)
      let ?b = "\<lambda>(im, edge, filled_pixels, full_edge). edge \<noteq> ([] :: point list)"
      let ?c = "fill_round W (Some b) (pix im p) thresh"
      have "\<exists>t. while_option ?b ?c ?s0 = Some t"
      proof (rule measure_while_option_Some [where P = "loop_inv im W" and f = "fill_measure W"])
        fix s :: fill_state
        assume i: "loop_inv im W s" and b: "?b s"
        from fill_round_keeps (1) [OF i fl] fill_round_keeps (2) [OF i fl b]
        show "loop_inv im W (?c s) \<and> fill_measure W (?c s) < fill_measure W s"
          by blast
      qed (rule i0)
      then obtain t where w: "while_option ?b ?c ?s0 = Some t" by blast
      have "loop_inv im W t"
        by (rule while_option_rule [where P = "loop_inv im W", OF _ w i0])
          (rule fill_round_keeps (1) [OF _ fl])
      moreover from while_option_stop [OF w] have "\<not> ?b t" .
      ultimately obtain im' filled full_edge where
        t: "t = (im', [], filled, full_edge)" and "fill_inv im W im' (set filled)"
        by (cases t) (auto simp: loop_inv_def)
      with g False put w show ?thesis
        by (simp add: floodfill_def fill_loop_def)
    qed
  qed
qed

section \<open>The masks of one segmentation\<close>

lemma putpixel_in_image:
  "in_image im q \<Longrightarrow> putpixel im q v = Inr (im\<lparr>pix := (pix im)(q := v)\<rparr>)"
  by (simp add: putpixel_def pixel_index_nonneg in_image_def)

lemma fill_mask_pixels:
  assumes "\<forall>q \<in> set qs. in_image m0 q"
  shows "\<exists>m. efold (\<lambda>q msk. putpixel msk q 0) qs m0 = Inr m
           \<and> width m = width m0 \<and> height m = height m0
           \<and> (\<forall>q. pix m q = (if q \<in> set qs then 0 else pix m0 q))"
  using assms
proof (induction qs arbitrary: m0)
  case Nil
  show ?case by simp
next
  case (Cons a qs)
  let ?m1 = "m0\<lparr>pix := (pix m0)(a := 0)\<rparr>"
  from Cons.prems have p: "putpixel m0 a 0 = Inr ?m1"
    by (simp add: putpixel_in_image)
  from Cons.prems have "\<forall>q \<in> set qs. in_image ?m1 q"
    by (simp add: in_image_def)
  from Cons.IH [OF this] obtain m where
    "efold (\<lambda>q msk. putpixel msk q 0) qs ?m1 = Inr m"
    "width m = width m0" "height m = height m0"
    "\<forall>q. pix m q = (if q \<in> set qs then 0 else pix ?m1 q)"
    by auto
  with p show ?case by (intro exI [of _ m]) auto
qed

lemma make_mask_pixels:
  assumes "\<forall>q \<in> set filled. in_image base_img q"
  shows "\<exists>msk. make_mask base_img filled = Inr msk \<and> (\<forall>q. pix msk q = 0 \<longleftrightarrow> q \<in> set filled)"
proof -
  let ?m0 = "new_image (width base_img) (height base_img) 255"
  from assms have "\<forall>q \<in> set filled. in_image ?m0 q"
    by (simp add: in_image_def new_image_def)
  from fill_mask_pixels [OF this] obtain m where
    "efold (\<lambda>q msk. putpixel msk q 0) filled ?m0 = Inr m"
    "\<forall>q. pix m q = (if q \<in> set filled then 0 else pix ?m0 q)"
    by blast
  then show ?thesis
    by (intro exI [of _ m]) (auto simp: make_mask_def new_image_def)
qed

lemma keys_update: "fst ` set (AList.update k v al) = insert k (fst ` set al)"
  using update_keys [of k v al] by (metis (no_types, lifting) insert_absorb list.set_map set_append list.simps(15) empty_set Un_insert_right sup_bot.right_neutral)


lemma scan_inv_image_only:
  assumes "scan_inv w h W (base_img, ap, mc, regs, masks)"
    and "fill_inv base_img W img' S"
  shows "scan_inv w h W (img', ap', mc, regs, masks)"
proof -
  from assms(2) have dims: "width img' = width base_img" "height img' = height base_img"
    and keep: "\<And>q. pix base_img q = W \<Longrightarrow> pix img' q = W"
    unfolding fill_inv_def by (blast, blast, metis)
  from assms(1) show ?thesis
    unfolding scan_inv_def prod.case dims
    by (intro conjI) (blast, blast, blast, blast, meson keep, blast)
qed


lemma scan_inv_new_region:
  assumes inv: "scan_inv w h W (base_img, ap, mc, regs, masks)"
    and fi: "fill_inv base_img W img' (set filled)"
    and mk: "\<forall>q. pix msk q = 0 \<longleftrightarrow> q \<in> set filled"
  shows "scan_inv w h W (img', ap', mc + 1, AList.update (mc + 1) r regs,
           AList.update (Png (mc + 1)) msk masks)"
proof -
  let ?masks = "AList.update (Png (mc + 1)) msk masks"
  from fi have dims: "width img' = width base_img" "height img' = height base_img"
    and keep: "\<And>q. pix base_img q = W \<Longrightarrow> pix img' q = W"
    and new: "\<And>q. q \<in> set filled \<Longrightarrow> pix base_img q \<noteq> W \<and> pix img' q = W"
    unfolding fill_inv_def by (blast, blast, metis, blast)
  from inv have w: "width base_img = w" "height base_img = h" and mc: "0 \<le> mc"
    and keys: "fst ` set regs = {1 .. mc}"
    and files: "\<And>k. k \<in> {1 .. mc} \<Longrightarrow>
        \<exists>mk. map_of masks (Png k) = Some mk \<and> (\<forall>q. pix mk q = 0 \<longrightarrow> pix base_img q = W)"
    and disj: "\<And>j k mj mk q. j \<in> {1 .. mc} \<Longrightarrow> k \<in> {1 .. mc} \<Longrightarrow> j \<noteq> k \<Longrightarrow>
        map_of masks (Png j) = Some mj \<Longrightarrow> map_of masks (Png k) = Some mk \<Longrightarrow>
        \<not> (pix mj q = 0 \<and> pix mk q = 0)"
    unfolding scan_inv_def prod.case by (blast, blast, blast, blast, blast, blast)
  have look: "map_of ?masks (Png k) = (if k = mc + 1 then Some msk else map_of masks (Png k))" for k
    by (simp add: update_conv')
  have k1: "fst ` set (AList.update (mc + 1) r regs) = {1 .. mc + 1}"
    using mc by (auto simp: keys_update keys)
  have k2: "\<exists>mk. map_of ?masks (Png k) = Some mk \<and> (\<forall>q. pix mk q = 0 \<longrightarrow> pix img' q = W)"
    if "k \<in> {1 .. mc + 1}" for k
  proof (cases "k = mc + 1")
    case True
    then show ?thesis using mk new by (auto simp: look)
  next
    case False
    with that have "k \<in> {1 .. mc}" by auto
    from files [OF this] False keep show ?thesis by (auto simp: look)
  qed
  have old_wall: "pix base_img q = W"
    if "k \<in> {1 .. mc}" "map_of masks (Png k) = Some mk" "pix mk q = 0" for k mk q
    using files [OF that(1)] that(2,3) by (metis option.inject)
  have k3: "\<not> (pix mj q = 0 \<and> pix mk q = 0)"
    if jk: "j \<in> {1 .. mc + 1}" "k \<in> {1 .. mc + 1}" "j \<noteq> k"
      and mj: "map_of ?masks (Png j) = Some mj" and mk': "map_of ?masks (Png k) = Some mk" for j k mj mk q
  proof (cases "j = mc + 1")
    case True
    with jk have k: "k \<in> {1 .. mc}" by auto
    from True mj have "mj = msk" by (simp add: look)
    moreover from k jk True mk' have "map_of masks (Png k) = Some mk" by (simp add: look)
    ultimately show ?thesis using old_wall [OF k] mk new by blast
  next
    case False
    with jk have j: "j \<in> {1 .. mc}" by auto
    from False mj have mj0: "map_of masks (Png j) = Some mj" by (simp add: look)
    show ?thesis
    proof (cases "k = mc + 1")
      case True
      with mk' have "mk = msk" by (simp add: look)
      then show ?thesis using old_wall [OF j mj0] mk new by blast
    next
      case False
      with jk have k: "k \<in> {1 .. mc}" by auto
      from False mk' have "map_of masks (Png k) = Some mk" by (simp add: look)
      from disj [OF j k jk(3) mj0 this] show ?thesis .
    qed
  qed
  from mc have mc1: "0 \<le> mc + 1" by simp
  have c5: "\<forall>k \<in> {1 .. mc + 1}. \<exists>mk. map_of ?masks (Png k) = Some mk
               \<and> (\<forall>q. pix mk q = 0 \<longrightarrow> pix img' q = W)"
    using k2 by blast
  have c6: "\<forall>j \<in> {1 .. mc + 1}. \<forall>k \<in> {1 .. mc + 1}. \<forall>mj mk q.
               j \<noteq> k \<and> map_of ?masks (Png j) = Some mj \<and> map_of ?masks (Png k) = Some mk
               \<longrightarrow> \<not> (pix mj q = 0 \<and> pix mk q = 0)"
    using k3 by blast
  from dims w have c1: "width img' = w" and c2: "height img' = h" by simp_all
  show ?thesis
    unfolding scan_inv_def prod.case
    using c1 c2 mc1 k1 c5 c6 by (intro conjI)
qed


lemma scan_pixel_keeps:
  assumes inv: "scan_inv w h (wall_color rg) st"
    and p: "0 \<le> fst p" "fst p < w" "0 \<le> snd p" "snd p < h"
  shows "\<exists>st'. scan_pixel rg p st = Some (Inr st') \<and> scan_inv w h (wall_color rg) st'"
proof -
  let ?W = "wall_color rg"
  obtain base_img ap mc regs masks where st: "st = (base_img, ap, mc, regs, masks)"
    by (cases st) auto
  from inv st have dims: "width base_img = w" "height base_img = h"
    by (simp_all add: scan_inv_def)
  with p have inp: "in_image base_img p" by (simp add: in_image_def)
  with p have g: "getpixel base_img p = Inr (pix base_img p)"
    by (simp add: getpixel_def pixel_index_nonneg)
  let ?c = "pix base_img p"
  show ?thesis
  proof (cases "p \<in> ap \<or> \<not> ((region_color rg = None \<and> ?c \<noteq> ?W) \<or> Some ?c = region_color rg)")
    case True
    then have "scan_pixel rg p st = Some (Inr st)"
      by (auto simp: scan_pixel_def st g)
    with inv show ?thesis by simp
  next
    case False
    then have nap: "p \<notin> ap" and cond: "(region_color rg = None \<and> ?c \<noteq> ?W) \<or> Some ?c = region_color rg"
      by auto
    from floodfill_border_mode [OF p(1) p(3), of 0 base_img ?W ?W] obtain filled img' where
      ff: "floodfill base_img p ?W (Some ?W) 0 = Some (filled, img')" and
      fi: "fill_inv base_img ?W img' (set filled)"
      by auto
    show ?thesis
    proof (cases "filled = []")
      case True
      with nap cond ff have "scan_pixel rg p st = Some (Inr (img', ap, mc, regs, masks))"
        by (simp add: scan_pixel_def st g)
      moreover from inv st fi have "scan_inv w h ?W (img', ap, mc, regs, masks)"
        by (auto intro: scan_inv_image_only)
      ultimately show ?thesis by simp
    next
      case False
      from fi have "\<forall>q \<in> set filled. in_image img' q"
        unfolding fill_inv_def in_image_def by simp
      from make_mask_pixels [OF this] obtain msk where
        mm: "make_mask img' filled = Inr msk" and px: "\<forall>q. pix msk q = 0 \<longleftrightarrow> q \<in> set filled"
        by blast
      from False obtain c where gc: "get_center (map real_point filled) = Inr c"
        by (simp add: get_center_def)
      let ?r = "\<lparr>center = c, weight = int (length filled), data = Map.empty\<rparr>"
      let ?st' = "(img', ap \<union> set filled, mc + 1, AList.update (mc + 1) ?r regs,
                   AList.update (Png (mc + 1)) msk masks)"
      from nap cond ff False mm gc have "scan_pixel rg p st = Some (Inr ?st')"
        by (simp add: scan_pixel_def st g)
      moreover from inv st have "scan_inv w h ?W ?st'"
        by (auto intro: scan_inv_new_region [OF _ fi px])
      ultimately show ?thesis by blast
    qed
  qed
qed

lemma rfold_scan_keeps:
  assumes "scan_inv w h (wall_color rg) st"
    and "\<forall>p \<in> set ps. 0 \<le> fst p \<and> fst p < w \<and> 0 \<le> snd p \<and> snd p < h"
  shows "\<exists>st'. rfold (scan_pixel rg) ps st = Some (Inr st') \<and> scan_inv w h (wall_color rg) st'"
  using assms
proof (induction ps arbitrary: st)
  case Nil
  then show ?case by simp
next
  case (Cons p ps)
  from Cons.prems have "0 \<le> fst p" "fst p < w" "0 \<le> snd p" "snd p < h" by simp_all
  from scan_pixel_keeps [OF Cons.prems(1) this] obtain st1 where
    s: "scan_pixel rg p st = Some (Inr st1)" and i: "scan_inv w h (wall_color rg) st1"
    by blast
  from Cons.prems have "\<forall>p \<in> set ps. 0 \<le> fst p \<and> fst p < w \<and> 0 \<le> snd p \<and> snd p < h"
    by simp
  from Cons.IH [OF i this] s show ?case by simp
qed

lemma chunker_elements:
  "chunker seq sz = Inr chunks \<Longrightarrow> set (concat chunks) \<subseteq> set seq"
  by (auto simp: chunker_def split: if_splits dest!: in_set_takeD in_set_dropD)

lemma scan_rows_in_image:
  assumes "efold (\<lambda>y1 ps. ebind (chunker [0 .. w - 1] (nat (w div 10)))
                    (\<lambda>x_chunks. Inr (ps @ map (\<lambda>x1. (x1, y1)) (concat x_chunks)))) ys acc = Inr ps"
    and "\<forall>y \<in> set ys. 0 \<le> y \<and> y < h"
    and "\<forall>p \<in> set acc. 0 \<le> fst p \<and> fst p < w \<and> 0 \<le> snd p \<and> snd p < h"
  shows "\<forall>p \<in> set ps. 0 \<le> fst p \<and> fst p < w \<and> 0 \<le> snd p \<and> snd p < h"
  using assms
proof (induction ys arbitrary: acc)
  case Nil
  then show ?case by simp
next
  case (Cons y ys)
  from Cons.prems(1) obtain x_chunks where
    c: "chunker [0 .. w - 1] (nat (w div 10)) = Inr x_chunks" and
    r: "efold (\<lambda>y1 ps. ebind (chunker [0 .. w - 1] (nat (w div 10)))
                    (\<lambda>x_chunks. Inr (ps @ map (\<lambda>x1. (x1, y1)) (concat x_chunks)))) ys
          (acc @ map (\<lambda>x1. (x1, y)) (concat x_chunks)) = Inr ps"
    by (auto simp: ebind_eq_Inr split: sum.splits)
  from chunker_elements [OF c] have "\<forall>x \<in> set (concat x_chunks). 0 \<le> x \<and> x < w"
    by auto
  with Cons.prems have
    "\<forall>p \<in> set (acc @ map (\<lambda>x1. (x1, y)) (concat x_chunks)).
       0 \<le> fst p \<and> fst p < w \<and> 0 \<le> snd p \<and> snd p < h"
    by auto
  with Cons.IH [OF r] Cons.prems(2) show ?case by simp
qed

lemma scan_order_in_image:
  assumes "scan_order w h = Inr ps"
  shows "\<forall>p \<in> set ps. 0 \<le> fst p \<and> fst p < w \<and> 0 \<le> snd p \<and> snd p < h"
proof -
  from assms obtain y_chunks where
    c: "chunker [0 .. h - 1] (nat (h div 10)) = Inr y_chunks" and
    f: "efold (\<lambda>y1 ps. ebind (chunker [0 .. w - 1] (nat (w div 10)))
                    (\<lambda>x_chunks. Inr (ps @ map (\<lambda>x1. (x1, y1)) (concat x_chunks))))
          (concat y_chunks) [] = Inr ps"
    by (auto simp: scan_order_def ebind_eq_Inr)
  from chunker_elements [OF c] have "\<forall>y \<in> set (concat y_chunks). 0 \<le> y \<and> y < h"
    by auto
  from scan_rows_in_image [OF f this] show ?thesis by simp
qed

lemma scan_rows_succeed:
  assumes "10 \<le> w"
  shows "\<exists>ps. efold (\<lambda>y1 ps. ebind (chunker [0 .. w - 1] (nat (w div 10)))
                    (\<lambda>x_chunks. Inr (ps @ map (\<lambda>x1. (x1, y1)) (concat x_chunks)))) ys acc = Inr ps"
proof (induction ys arbitrary: acc)
  case Nil
  show ?case by simp
next
  case (Cons y ys)
  from assms have "nat (w div 10) \<noteq> 0" by simp
  then obtain x_chunks where "chunker [0 .. w - 1] (nat (w div 10)) = Inr x_chunks"
    by (simp add: chunker_def)
  with Cons show ?case by simp
qed

lemma scan_order_succeeds:
  assumes "10 \<le> w" and "10 \<le> h"
  shows "\<exists>ps. scan_order w h = Inr ps"
proof -
  from assms have "nat (h div 10) \<noteq> 0" by simp
  then obtain y_chunks where "chunker [0 .. h - 1] (nat (h div 10)) = Inr y_chunks"
    by (simp add: chunker_def)
  with scan_rows_succeed [OF assms(1)] show ?thesis
    by (simp add: scan_order_def)
qed

lemma scan_inv_start: "scan_inv (width base_img) (height base_img) W (base_img, {}, 0, [], masks)"
  by (simp add: scan_inv_def)

text \<open>What \<open>execute\<close> returns once the scan order exists.\<close>

lemma execute_scans:
  assumes b: "blank_png d = Some base_img"
    and so: "scan_order (width base_img) (height base_img) = Inr ps"
  shows "\<exists>img ap mc regs masks.
           execute rg d = Some (Inr (Some regs, create_number_mask regs (d\<lparr>masks_dir := Some masks\<rparr>)))
         \<and> scan_inv (width base_img) (height base_img) (wall_color rg) (img, ap, mc, regs, masks)"
proof -
  let ?masks0 = "case masks_dir d of None \<Rightarrow> [] | Some ms \<Rightarrow> ms"
  from rfold_scan_keeps [OF scan_inv_start scan_order_in_image [OF so], of rg ?masks0]
  obtain st' where
    r: "rfold (scan_pixel rg) ps (base_img, {}, 0, [], ?masks0) = Some (Inr st')" and
    i: "scan_inv (width base_img) (height base_img) (wall_color rg) st'"
    by blast
  obtain img ap mc regs masks where st': "st' = (img, ap, mc, regs, masks)"
    by (cases st') auto
  from b so r st' have
    "execute rg d = Some (Inr (Some regs, create_number_mask regs (d\<lparr>masks_dir := Some masks\<rparr>)))"
    by (simp add: execute_def)
  with i st' show ?thesis by blast
qed

lemma execute_returns: "\<exists>r. execute rg d = Some r"
proof (cases "blank_png d")
  case None
  then show ?thesis by (simp add: execute_def)
next
  case (Some base_img)
  show ?thesis
  proof (cases "scan_order (width base_img) (height base_img)")
    case (Inl e)
    with Some show ?thesis by (simp add: execute_def)
  next
    case (Inr ps)
    from execute_scans [OF Some Inr] show ?thesis by blast
  qed
qed

lemma execute_segments:
  assumes "blank_png d = Some base_img" and "10 \<le> width base_img" and "10 \<le> height base_img"
  shows "\<exists>regs d'. execute rg d = Some (Inr (Some regs, d'))"
proof -
  from scan_order_succeeds [OF assms(2,3)] obtain ps where
    "scan_order (width base_img) (height base_img) = Inr ps" by blast
  from execute_scans [OF assms(1) this] show ?thesis by blast
qed

text \<open>
  Claim C7: \<open>Regioner.execute\<close> returns for every base image (the flood fills end),
  and when it returns regions, no pixel is filled (0) in the masks of two different
  regions of the run; every region of the run has its mask file.  Each fill only claims
  pixels that do not hold the wall colour and leaves the wall colour in them, so a later
  fill cannot claim them again.
\<close>

theorem execute_masks_disjoint:
  "(\<exists>r. execute rg d = Some r)
   \<and> (\<forall>regs d' j k mj mk q.
         execute rg d = Some (Inr (Some regs, d'))
         \<and> j \<in> fst ` set regs \<and> k \<in> fst ` set regs \<and> j \<noteq> k
         \<and> open_mask d' (Png j) = Inr mj \<and> open_mask d' (Png k) = Inr mk
         \<longrightarrow> \<not> (pix mj q = 0 \<and> pix mk q = 0))
   \<and> (\<forall>regs d' k. execute rg d = Some (Inr (Some regs, d')) \<and> k \<in> fst ` set regs
         \<longrightarrow> (\<exists>mk. open_mask d' (Png k) = Inr mk))"
proof (intro conjI allI impI)
  show "\<exists>r. execute rg d = Some r" by (rule execute_returns)
next
  fix regs d' j k mj mk q
  assume a: "execute rg d = Some (Inr (Some regs, d'))
         \<and> j \<in> fst ` set regs \<and> k \<in> fst ` set regs \<and> j \<noteq> k
         \<and> open_mask d' (Png j) = Inr mj \<and> open_mask d' (Png k) = Inr mk"
  then have ex: "execute rg d = Some (Inr (Some regs, d'))" by simp
  then obtain base_img where b: "blank_png d = Some base_img"
    by (cases "blank_png d") (auto simp: execute_def)
  from ex b obtain ps where so: "scan_order (width base_img) (height base_img) = Inr ps"
    by (cases "scan_order (width base_img) (height base_img)") (auto simp: execute_def)
  from execute_scans [OF b so, of rg] ex obtain img ap mc masks where
    d': "d' = create_number_mask regs (d\<lparr>masks_dir := Some masks\<rparr>)" and
    i: "scan_inv (width base_img) (height base_img) (wall_color rg) (img, ap, mc, regs, masks)"
    by auto
  from i have keys: "fst ` set regs = {1 .. mc}"
    and disj: "\<And>j k mj mk q. j \<in> {1 .. mc} \<Longrightarrow> k \<in> {1 .. mc} \<Longrightarrow> j \<noteq> k \<Longrightarrow>
        map_of masks (Png j) = Some mj \<Longrightarrow> map_of masks (Png k) = Some mk \<Longrightarrow>
        \<not> (pix mj q = 0 \<and> pix mk q = 0)"
    unfolding scan_inv_def prod.case by (blast, blast)
  have o: "open_mask d' f = Inr m \<Longrightarrow> map_of masks f = Some m" for f m
    by (auto simp: d' open_mask_def split: option.splits)
  from a keys have "j \<in> {1 .. mc}" "k \<in> {1 .. mc}" "j \<noteq> k"
    "map_of masks (Png j) = Some mj" "map_of masks (Png k) = Some mk"
    by (auto dest: o)
  from disj [OF this] show "\<not> (pix mj q = 0 \<and> pix mk q = 0)" .
next
  fix regs d' k
  assume a: "execute rg d = Some (Inr (Some regs, d')) \<and> k \<in> fst ` set regs"
  then have ex: "execute rg d = Some (Inr (Some regs, d'))" by simp
  then obtain base_img where b: "blank_png d = Some base_img"
    by (cases "blank_png d") (auto simp: execute_def)
  from ex b obtain ps where so: "scan_order (width base_img) (height base_img) = Inr ps"
    by (cases "scan_order (width base_img) (height base_img)") (auto simp: execute_def)
  from execute_scans [OF b so, of rg] ex obtain img ap mc masks where
    d': "d' = create_number_mask regs (d\<lparr>masks_dir := Some masks\<rparr>)" and
    i: "scan_inv (width base_img) (height base_img) (wall_color rg) (img, ap, mc, regs, masks)"
    by auto
  from i have keys: "fst ` set regs = {1 .. mc}"
    and files: "\<And>k. k \<in> {1 .. mc} \<Longrightarrow> \<exists>mk. map_of masks (Png k) = Some mk"
    unfolding scan_inv_def prod.case by (blast, blast)
  from a keys files obtain mk where "map_of masks (Png k) = Some mk" by blast
  then show "\<exists>mk. open_mask d' (Png k) = Inr mk"
    by (simp add: d' open_mask_def)
qed


theorem execute_masks_disjoint_witness:
  "\<exists>regs d' m1 m2. execute \<lparr>wall_color = 0, region_color = None\<rparr> two_pixel_disk
                      = Some (Inr (Some regs, d'))
      \<and> map fst regs = [1, 2]
      \<and> open_mask d' (Png 1) = Inr m1 \<and> open_mask d' (Png 2) = Inr m2
      \<and> pix m1 (0, 0) = 0 \<and> pix m2 (0, 0) \<noteq> 0"
proof -
  let ?rg = "\<lparr>wall_color = 0, region_color = None\<rparr>"
  have ev: "map_option (map_sum id (\<lambda>(regs, d').
                (map_option (map fst) regs,
                 map_sum id (\<lambda>m. pix m (0, 0)) (open_mask d' (Png 1)),
                 map_sum id (\<lambda>m. ()) (open_mask d' (Png 2)))))
              (execute ?rg two_pixel_disk)
            = Some (Inr (Some [1, 2], Inr 0, Inr ()))"
    by code_simp
  then obtain a where e1: "execute ?rg two_pixel_disk = Some a"
    and e2: "map_sum id (\<lambda>(regs, d').
                (map_option (map fst) regs,
                 map_sum id (\<lambda>m. pix m (0, 0)) (open_mask d' (Png 1)),
                 map_sum id (\<lambda>m. ()) (open_mask d' (Png 2)))) a
             = Inr (Some [1, 2], Inr 0, Inr ())"
    by (cases "execute ?rg two_pixel_disk") auto
  from e2 obtain x where a: "a = Inr x"
    and e3: "(case x of (regs, d') \<Rightarrow>
                (map_option (map fst) regs,
                 map_sum id (\<lambda>m. pix m (0, 0)) (open_mask d' (Png 1)),
                 map_sum id (\<lambda>m. ()) (open_mask d' (Png 2))))
             = (Some [1, 2], Inr 0, Inr ())"
    by (cases a) auto
  obtain regs0 d' where x: "x = (regs0, d')" by (cases x) auto
  from e3 x have r0: "map_option (map fst) regs0 = Some [1, 2]"
    and p1: "map_sum id (\<lambda>m. pix m (0, 0)) (open_mask d' (Png 1)) = Inr 0"
    and p2: "map_sum id (\<lambda>m. ()) (open_mask d' (Png 2)) = Inr ()"
    by simp_all
  from r0 obtain regs where regs: "regs0 = Some regs" and ks: "map fst regs = [1, 2]"
    by (cases regs0) auto
  from e1 a x regs have ex: "execute ?rg two_pixel_disk = Some (Inr (Some regs, d'))"
    by simp
  from p1 obtain m1 where m1: "open_mask d' (Png 1) = Inr m1" "pix m1 (0, 0) = 0"
    by (cases "open_mask d' (Png 1)") auto
  from p2 obtain m2 where m2: "open_mask d' (Png 2) = Inr m2"
    by (cases "open_mask d' (Png 2)") auto
  from ks have "1 \<in> fst ` set regs" "2 \<in> fst ` set regs"
    by (metis list.set_intros(1) set_map, metis list.set_intros(1,2) set_map)
  moreover have "(1::int) \<noteq> 2" by simp
  ultimately have "\<not> (pix m1 (0, 0) = 0 \<and> pix m2 (0, 0) = 0)"
    using execute_masks_disjoint [of ?rg two_pixel_disk] ex m1(1) m2 by blast
  with m1 have "pix m2 (0, 0) \<noteq> 0" by simp
  with ex ks m1 m2 show ?thesis by auto
qed

section \<open>Pruning\<close>

text \<open>
  Claim C5 says that, for every registry, \<open>prune_masks\<close> walks the registry in
  increasing key order and that no rename overwrites the mask of a region not yet renamed,
  so that every region keeps its mask under its new key.  The docstring says the same
  (\<open>Iterate through regions numerically\<close>), but step 2 enumerates
  \<open>self.regions.items()\<close>, the dictionary in its own order.  On the registry that
  lists the key 2 before the key 1, \<open>2.png\<close> is renamed to \<open>1.png\<close> over the mask
  of region 1, which is then renamed to \<open>2.png\<close>: the region that was 1 (weight 4,
  mask \<open>mask_left\<close>) ends as key 2 with the mask of the other region, the region that
  was 2 ends as key 1 without a mask file, and \<open>mask_left\<close> is lost.  On the empty
  registry \<open>max\<close> of no keys raises \<open>ValueError\<close>.
\<close>

theorem prune_masks_follows_dictionary_order:
  "map_sum id (\<lambda>(pruned, m', d').
       (pruned, map (\<lambda>(k, r). (k, weight r)) (regions m'),
        map_sum id (\<lambda>m. map (pix m) [(0, 0), (1, 0)]) (open_mask d' (Png 1)),
        map_sum id (\<lambda>m. map (pix m) [(0, 0), (1, 0)]) (open_mask d' (Png 2))))
     (prune_masks swapped_regions strip_disk)
   = Inr ([], [(1, 2), (2, 4)], Inl FileNotFoundError, Inr [255, 0])
   \<and> map (pix mask_left) [(0, 0), (1, 0)] = [0, 255]
   \<and> map_sum id fst (prune_masks new_map strip_disk) = Inl ValueError"
  by code_simp

subsection \<open>Registries in key order\<close>

text \<open>Step 1 of the pruning: the files whose number is not a key are unlinked.\<close>

lemma prune_file_fold:
  assumes "\<forall>f \<in> set fs. \<exists>k. f = Png k"
  shows "\<exists>ms'. efold (prune_file rs) fs (pruned, ms)
                = Inr (pruned @ map stem (filter (\<lambda>f. \<forall>k. f = Png k \<longrightarrow> k \<notin> fst ` set rs) fs), ms')
           \<and> (\<forall>k. map_of ms' (Png k)
                  = (if Png k \<in> set fs \<and> k \<notin> fst ` set rs then None else map_of ms (Png k)))"
  using assms
proof (induction fs arbitrary: pruned ms)
  case Nil
  show ?case by simp
next
  case (Cons f fs)
  from Cons.prems obtain k where f: "f = Png k" by auto
  from Cons.prems have rest: "\<forall>f \<in> set fs. \<exists>k. f = Png k" by simp
  show ?case
  proof (cases "k \<in> fst ` set rs")
    case True
    then have step: "prune_file rs f (pruned, ms) = Inr (pruned, ms)"
      by (simp add: prune_file_def stem_int_def f)
    from Cons.IH [OF rest, of pruned ms] obtain ms' where
      e: "efold (prune_file rs) fs (pruned, ms)
            = Inr (pruned @ map stem (filter (\<lambda>f. \<forall>k. f = Png k \<longrightarrow> k \<notin> fst ` set rs) fs), ms')"
      and m: "\<forall>j. map_of ms' (Png j)
                  = (if Png j \<in> set fs \<and> j \<notin> fst ` set rs then None else map_of ms (Png j))"
      by blast
    have "\<forall>j. map_of ms' (Png j)
                  = (if Png j \<in> set (f # fs) \<and> j \<notin> fst ` set rs then None else map_of ms (Png j))"
      using m True by (simp add: f)
    with step e True show ?thesis
      by (simp add: f)
  next
    case False
    then have step: "prune_file rs f (pruned, ms) = Inr (pruned @ [stem f], AList.delete f ms)"
      by (simp add: prune_file_def stem_int_def f)
    from Cons.IH [OF rest, of "pruned @ [stem f]" "AList.delete f ms"] obtain ms' where
      e: "efold (prune_file rs) fs (pruned @ [stem f], AList.delete f ms)
            = Inr ((pruned @ [stem f]) @ map stem (filter (\<lambda>f. \<forall>k. f = Png k \<longrightarrow> k \<notin> fst ` set rs) fs), ms')"
      and m: "\<forall>j. map_of ms' (Png j)
                  = (if Png j \<in> set fs \<and> j \<notin> fst ` set rs then None
                     else map_of (AList.delete f ms) (Png j))"
      by blast
    have "\<forall>j. map_of ms' (Png j)
                  = (if Png j \<in> set (f # fs) \<and> j \<notin> fst ` set rs then None else map_of ms (Png j))"
      using m False by (auto simp: f delete_conv')
    with step e False show ?thesis
      by (auto simp: f)
  qed
qed

text \<open>
  Step 2 of the pruning, for keys that increase along the dictionary and are not below
  their new numbers: every region gets the next number and its mask file with it.
\<close>

lemma renumber_fold:
  assumes "sorted_wrt (<) (map fst rs)"
    and "\<forall>k \<in> set (map fst rs). int n \<le> k"
    and "\<forall>k \<in> set (map fst rs). \<exists>im. open_mask d (Png k) = Inr im"
    and "\<forall>j \<in> fst ` set acc. j < int n"
  shows "\<exists>d'. efold renumber (zip (map int [n ..< n + length rs]) rs) (acc, d)
               = Inr (acc @ zip (map int [n ..< n + length rs]) (map snd rs), d')
           \<and> (\<forall>i < length rs. open_mask d' (Png (int (n + i))) = open_mask d (Png (fst (rs ! i))))
           \<and> (\<forall>j. j < int n \<longrightarrow> open_mask d' (Png j) = open_mask d (Png j))"
  using assms
proof (induction rs arbitrary: n acc d)
  case Nil
  show ?case by simp
next
  case (Cons x rs)
  obtain k r where x: "x = (k, r)" by (cases x)
  from Cons.prems x have nk: "int n \<le> k" and gt: "\<forall>k' \<in> set (map fst rs). k < k'"
    by auto
  from Cons.prems x obtain im where im: "open_mask d (Png k) = Inr im" by auto
  from Cons.prems have "int n \<notin> fst ` set acc" by auto
  then have u: "AList.update (int n) r acc = acc @ [(int n, r)]" by (rule update_new_key)
  have "\<exists>d1. renumber (int n, k, r) (acc, d) = Inr (acc @ [(int n, r)], d1)
          \<and> open_mask d1 (Png (int n)) = Inr im
          \<and> (\<forall>j. j \<noteq> int n \<and> j \<noteq> k \<longrightarrow> open_mask d1 (Png j) = open_mask d (Png j))"
  proof (cases "int n = k")
    case True
    with im u show ?thesis by (simp add: renumber_def)
  next
    case False
    from rename_present [OF im, of "Png (int n)"] obtain d1 where
      "rename (Png k) (Png (int n)) d = Inr d1"
      "\<forall>f. open_mask d1 f =
          (if f = Png (int n) then Inr im
           else if f = Png k then Inl FileNotFoundError else open_mask d f)"
      by blast
    with False u show ?thesis by (simp add: renumber_def)
  qed
  then obtain d1 where
    step: "renumber (int n, k, r) (acc, d) = Inr (acc @ [(int n, r)], d1)" and
    o_n: "open_mask d1 (Png (int n)) = Inr im" and
    o_other: "\<And>j. j \<noteq> int n \<Longrightarrow> j \<noteq> k \<Longrightarrow> open_mask d1 (Png j) = open_mask d (Png j)"
    by blast
  have keep: "open_mask d1 (Png k') = open_mask d (Png k')" if "k' \<in> set (map fst rs)" for k'
    using that gt nk by (intro o_other) auto
  from Cons.prems have p1: "sorted_wrt (<) (map fst rs)" by simp
  from gt nk have p2: "\<forall>k' \<in> set (map fst rs). int (Suc n) \<le> k'" by auto
  from Cons.prems keep have p3: "\<forall>k' \<in> set (map fst rs). \<exists>im. open_mask d1 (Png k') = Inr im"
    by simp
  from Cons.prems have p4: "\<forall>j \<in> fst ` set (acc @ [(int n, r)]). j < int (Suc n)" by auto
  from Cons.IH [OF p1 p2 p3 p4] obtain d' where
    e: "efold renumber (zip (map int [Suc n ..< Suc n + length rs]) rs) (acc @ [(int n, r)], d1)
          = Inr ((acc @ [(int n, r)]) @ zip (map int [Suc n ..< Suc n + length rs]) (map snd rs), d')" and
    o': "\<forall>i < length rs. open_mask d' (Png (int (Suc n + i))) = open_mask d1 (Png (fst (rs ! i)))" and
    lo: "\<forall>j. j < int (Suc n) \<longrightarrow> open_mask d' (Png j) = open_mask d1 (Png j)"
    by blast
  have up: "[n ..< n + length (x # rs)] = n # [Suc n ..< Suc n + length rs]"
    by (simp add: upt_conv_Cons del: upt_Suc)
  have r1: "efold renumber (zip (map int [n ..< n + length (x # rs)]) (x # rs)) (acc, d)
              = Inr (acc @ zip (map int [n ..< n + length (x # rs)]) (map snd (x # rs)), d')"
    unfolding up using step e by (simp add: x)
  have r2: "open_mask d' (Png (int (n + i))) = open_mask d (Png (fst ((x # rs) ! i)))"
    if "i < length (x # rs)" for i
  proof (cases i)
    case 0
    with lo o_n im show ?thesis by (simp add: x)
  next
    case (Suc i')
    with that have i': "i' < length rs" by simp
    then have "fst (rs ! i') \<in> set (map fst rs)" by (metis length_map nth_map nth_mem)
    from keep [OF this] o' i' Suc show ?thesis by simp
  qed
  have r3: "open_mask d' (Png j) = open_mask d (Png j)" if "j < int n" for j
  proof -
    from that nk have "j \<noteq> int n" "j \<noteq> k" by auto
    from o_other [OF this] lo that show ?thesis by simp
  qed
  from r1 r2 r3 show ?case by blast
qed


lemma max_key_Max: "rs \<noteq> [] \<Longrightarrow> max_key rs = Inr (Max (fst ` set rs))"
proof -
  assume "rs \<noteq> []"
  then obtain x xs where rs: "rs = x # xs" by (cases rs) auto
  have "Max (set (fst x # map fst xs)) = fold max (map fst xs) (fst x)"
    by (rule Max.set_eq_fold)
  then show ?thesis by (simp add: max_key_def rs)
qed

text \<open>
  The pruning of a registry whose dictionary lists its keys in increasing order, with
  positive keys and a mask file for each: the files whose numbers are not keys are
  unlinked and returned, the regions get the keys 1 to N in their order, \<open>region_max\<close>
  is N, and the mask file of each new key holds the mask the region had.
\<close>

lemma prune_masks_in_key_order:
  assumes srt: "sorted_wrt (<) (map fst (regions m))"
    and pos: "\<forall>k \<in> set (map fst (regions m)). 1 \<le> k"
    and ne: "regions m \<noteq> []"
    and dir: "masks_dir d = Some ms"
    and names: "\<forall>f \<in> set (map fst ms). \<exists>k. f = Png k"
    and files: "\<forall>k \<in> set (map fst (regions m)). \<exists>im. map_of ms (Png k) = Some im"
  shows "\<exists>m' d'.
           prune_masks m d
             = Inr (map stem (filter (\<lambda>f. \<forall>k. f = Png k \<longrightarrow> k \<notin> fst ` set (regions m)) (map fst ms)),
                    m', d')
         \<and> regions m' = zip (map int [1 ..< Suc (length (regions m))]) (map snd (regions m))
         \<and> region_max m' = Some (int (length (regions m)))
         \<and> (\<forall>i < length (regions m).
               open_mask d' (Png (int i + 1)) = open_mask d (Png (fst (regions m ! i))))"
proof -
  let ?R = "regions m"
  let ?N = "length ?R"
  let ?pruned = "map stem (filter (\<lambda>f. \<forall>k. f = Png k \<longrightarrow> k \<notin> fst ` set ?R) (map fst ms))"
  from prune_file_fold [OF names, of ?R "[]" ms] obtain ms1 where
    s1: "efold (prune_file ?R) (map fst ms) ([], ms) = Inr (?pruned, ms1)" and
    m1: "\<forall>k. map_of ms1 (Png k)
           = (if Png k \<in> set (map fst ms) \<and> k \<notin> fst ` set ?R then None else map_of ms (Png k))"
    by auto
  let ?d1 = "d\<lparr>masks_dir := Some ms1\<rparr>"
  have o1: "open_mask ?d1 (Png k) = open_mask d (Png k)" if "k \<in> set (map fst ?R)" for k
    using that m1 by (simp add: open_mask_def dir)
  have p2: "\<forall>k \<in> set (map fst ?R). int 1 \<le> k" using pos by simp
  have p3: "\<forall>k \<in> set (map fst ?R). \<exists>im. open_mask ?d1 (Png k) = Inr im"
  proof
    fix k assume k: "k \<in> set (map fst ?R)"
    with files obtain im where "map_of ms (Png k) = Some im" by blast
    then have "open_mask d (Png k) = Inr im" by (simp add: open_mask_def dir)
    with o1 [OF k] show "\<exists>im. open_mask ?d1 (Png k) = Inr im" by simp
  qed
  have p4: "\<forall>j \<in> fst ` set ([] :: (int \<times> region) list). j < int 1" by simp
  from renumber_fold [OF srt p2 p3 p4] obtain d2 where
    s2: "efold renumber (zip (map int [1 ..< 1 + ?N]) ?R) ([], ?d1)
           = Inr ([] @ zip (map int [1 ..< 1 + ?N]) (map snd ?R), d2)" and
    o2: "\<forall>i < ?N. open_mask d2 (Png (int (1 + i))) = open_mask ?d1 (Png (fst (?R ! i)))"
    by blast
  define new where "new = zip (map int [1 ..< Suc ?N]) (map snd ?R)"
  have e1: "enumerate1 ?R = zip (map int [1 ..< 1 + ?N]) ?R"
    by (simp add: enumerate1_def del: upt_Suc)
  have s2': "efold renumber (enumerate1 ?R) ([], ?d1) = Inr (new, d2)"
    unfolding e1 s2 new_def by (simp del: upt_Suc)
  have kn: "map fst new = map int [1 ..< Suc ?N]"
    by (simp add: new_def del: upt_Suc)
  from ne have nn: "new \<noteq> []" by (cases ?R) (simp_all add: new_def upt_conv_Cons del: upt_Suc)
  have "fst ` set new = int ` {1 ..< Suc ?N}"
    using kn by (metis list.set_map set_upt)
  moreover have "Max (int ` {1 ..< Suc ?N}) = int ?N"
  proof (rule Max_eqI)
    from ne have "?N \<in> {1 ..< Suc ?N}" by (cases ?R) simp_all
    then show "int ?N \<in> int ` {1 ..< Suc ?N}" by (rule imageI)
  qed auto
  ultimately have mk: "max_key new = Inr (int ?N)"
    using max_key_Max [OF nn] by simp
  define m' where "m' = m\<lparr>regions := new, region_max := Some (int ?N)\<rparr>"
  have res: "prune_masks m d = Inr (?pruned, m', save_data m' d2)"
    by (simp only: prune_masks_def dir option.case s1 ebind_Inr prod.case s2' mk m'_def)
  have k3: "open_mask (save_data m' d2) (Png (int i + 1)) = open_mask d (Png (fst (?R ! i)))"
    if "i < ?N" for i
  proof -
    from that have "fst (?R ! i) \<in> set (map fst ?R)" by (metis length_map nth_map nth_mem)
    from o1 [OF this] o2 that show ?thesis by (simp add: add.commute)
  qed
  from res k3 show ?thesis
    by (intro exI [of _ m'] exI [of _ "save_data m' d2"]) (simp add: m'_def new_def)
qed

end
